theory Spec2Isabelle
  imports Main "HOL-Library.Char_ord" "HOL-Library.List_Lexorder"
begin

section \<open>Errors\<close>

text \<open>
  Exceptions of the Python source are values. \<open>IndexError\<close> is Python's exception of that
  name, \<open>AttributeError\<close> and \<open>TypeError\<close> are raised where a compiled pattern stands
  in the place of a \<open>str\<close>, \<open>ReError\<close> is \<open>re.error\<close> (an invalid pattern), \<open>ToolFailure\<close> stands for an
  exception raised by an external collaborator or for a collaborator that never returns.
  \<open>Unsupported\<close> is not a Python exception: it marks a pattern that uses
  regular-expression syntax outside the subset modelled below.
\<close>

datatype error = IndexError | AttributeError | TypeError | ReError | Unsupported | ToolFailure

definition bind :: "error + 'a \<Rightarrow> ('a \<Rightarrow> error + 'b) \<Rightarrow> error + 'b" where
  "bind x f = (case x of Inl e \<Rightarrow> Inl e | Inr v \<Rightarrow> f v)"

section \<open>Python string operations\<close>

text \<open>
  A Python \<open>str\<close> is modelled as a \<open>string\<close>, a list of 8-bit characters, so the model
  covers the code points 0 to 255.
\<close>

definition nl :: char where
  "nl = CHR 0x0A"

definition py_isspace :: "char \<Rightarrow> bool" where
  "py_isspace c = (of_char c \<in> {9, 10, 11, 12, 13, 28, 29, 30, 31, 32, 133, 160 :: nat})"

definition py_isdigit :: "char \<Rightarrow> bool" where
  "py_isdigit c = (48 \<le> (of_char c :: nat) \<and> (of_char c :: nat) \<le> 57)"

definition startswith :: "string \<Rightarrow> string \<Rightarrow> bool" where
  "startswith s p = (take (length p) s = p)"

definition endswith :: "string \<Rightarrow> string \<Rightarrow> bool" where
  "endswith s p = (length p \<le> length s \<and> drop (length s - length p) s = p)"

text \<open>\<open>sub in s\<close>\<close>

fun contains :: "string \<Rightarrow> string \<Rightarrow> bool" where
  "contains [] sub = (sub = [])"
| "contains (c # cs) sub = (startswith (c # cs) sub \<or> contains cs sub)"

text \<open>\<open>s.strip()\<close> and \<open>s.strip('\n')\<close>\<close>

definition strip_by :: "(char \<Rightarrow> bool) \<Rightarrow> string \<Rightarrow> string" where
  "strip_by p s = rev (dropWhile p (rev (dropWhile p s)))"

definition strip :: "string \<Rightarrow> string" where
  "strip s = strip_by py_isspace s"

definition strip_nl :: "string \<Rightarrow> string" where
  "strip_nl s = strip_by (\<lambda>c. c = nl) s"

text \<open>\<open>s.split()\<close>: the maximal runs of characters that are not whitespace.\<close>

fun split_ws_aux :: "string \<Rightarrow> string \<Rightarrow> string list" where
  "split_ws_aux cur [] = (if cur = [] then [] else [cur])"
| "split_ws_aux cur (c # cs) =
     (if py_isspace c then (if cur = [] then split_ws_aux [] cs else cur # split_ws_aux [] cs)
      else split_ws_aux (cur @ [c]) cs)"

definition split_ws :: "string \<Rightarrow> string list" where
  "split_ws s = split_ws_aux [] s"

text \<open>\<open>s.split(sep)\<close> for a separator of one character.\<close>

fun split_on_aux :: "char \<Rightarrow> string \<Rightarrow> string \<Rightarrow> string list" where
  "split_on_aux sep cur [] = [cur]"
| "split_on_aux sep cur (c # cs) =
     (if c = sep then cur # split_on_aux sep [] cs else split_on_aux sep (cur @ [c]) cs)"

definition split_on :: "char \<Rightarrow> string \<Rightarrow> string list" where
  "split_on sep s = split_on_aux sep [] s"

text \<open>\<open>s.split(sep, 1)\<close> for a separator of one character.\<close>

definition split_once :: "char \<Rightarrow> string \<Rightarrow> string list" where
  "split_once sep s =
     (case dropWhile (\<lambda>c. c \<noteq> sep) s of
        [] \<Rightarrow> [s]
      | _ # rest \<Rightarrow> [takeWhile (\<lambda>c. c \<noteq> sep) s, rest])"

text \<open>
  \<open>s.splitlines(keepends)\<close>. Python ends a line at \<open>\n\<close>, \<open>\r\<close>, \<open>\r\n\<close>, \<open>\v\<close>, \<open>\f\<close>,
  \<open>\x1c\<close>, \<open>\x1d\<close>, \<open>\x1e\<close> and \<open>\x85\<close> (and at two code points above 255).
\<close>

definition is_linebreak :: "char \<Rightarrow> bool" where
  "is_linebreak c = (of_char c \<in> {10, 11, 12, 13, 28, 29, 30, 133 :: nat})"

fun splitlines_aux :: "bool \<Rightarrow> string \<Rightarrow> string \<Rightarrow> string list" where
  "splitlines_aux keep cur [] = (if cur = [] then [] else [cur])"
| "splitlines_aux keep cur [c] =
     (if is_linebreak c then [cur @ (if keep then [c] else [])] else [cur @ [c]])"
| "splitlines_aux keep cur (c # d # cs) =
     (if c = CHR 0x0D \<and> d = nl then
        (cur @ (if keep then [c, d] else [])) # splitlines_aux keep [] cs
      else if is_linebreak c then
        (cur @ (if keep then [c] else [])) # splitlines_aux keep [] (d # cs)
      else splitlines_aux keep (cur @ [c]) (d # cs))"

definition splitlines :: "bool \<Rightarrow> string \<Rightarrow> string list" where
  "splitlines keep s = splitlines_aux keep [] s"

text \<open>
  \<open>s.find(sub, start)\<close>: the lowest index from \<open>start\<close> on at which \<open>sub\<close> occurs, or -1.
\<close>

fun find_in :: "string \<Rightarrow> string \<Rightarrow> nat \<Rightarrow> int" where
  "find_in [] sub i = (if sub = [] then int i else -1)"
| "find_in (c # cs) sub i = (if startswith (c # cs) sub then int i else find_in cs sub (Suc i))"

definition py_find :: "string \<Rightarrow> string \<Rightarrow> int \<Rightarrow> int" where
  "py_find s sub start =
     (let n = int (length s);
          st = (if start < 0 then max 0 (start + n) else start)
      in if n < st then -1 else find_in (drop (nat st) s) sub (nat st))"

text \<open>\<open>s[i:j]\<close>: a negative index counts from the end, both are clipped to the string.\<close>

definition py_slice :: "string \<Rightarrow> int \<Rightarrow> int \<Rightarrow> string" where
  "py_slice s i j =
     (let n = int (length s);
          clip = (\<lambda>k. if k < 0 then max 0 (k + n) else min k n)
      in take (nat (clip j) - nat (clip i)) (drop (nat (clip i)) s))"

section \<open>Regular expressions\<close>

text \<open>
  The source uses Python's \<open>re\<close> module: \<open>re.compile\<close>, \<open>re.match\<close> (a match anchored at
  the start of the subject) and \<open>re.search\<close> (a match starting anywhere). The model covers
  literals, \<open>.\<close>, \<open>^\<close>, \<open>$\<close>, the escapes \<open>\d \D \s \S\<close> and escaped punctuation, character
  sets of literals and ranges, groups, alternation and the greedy quantifiers
  \<open>* + ?\<close>. Whether a match exists is decided with derivatives; which text a match covers
  is not modelled, the source only tests for a match.
\<close>

datatype citem = IChr char | IRange char char

datatype regex =
    Null | Eps | Bol | Eol | Dot | Chr char | Digit bool | Space bool
  | Cls bool "citem list"
  | Seq regex regex | Alt regex regex | Star regex | Plus regex | Opt regex

fun citem_has :: "char \<Rightarrow> citem \<Rightarrow> bool" where
  "citem_has c (IChr d) = (c = d)"
| "citem_has c (IRange lo hi) =
     ((of_char lo :: nat) \<le> of_char c \<and> (of_char c :: nat) \<le> of_char hi)"

text \<open>
  \<open>nullable st rest r\<close>: \<open>r\<close> matches the empty string at a position that is the start of
  the subject iff \<open>st\<close>, with \<open>rest\<close> still to read. \<open>$\<close> holds at the end of the subject
  and before a newline that ends it.
\<close>

fun nullable :: "bool \<Rightarrow> string \<Rightarrow> regex \<Rightarrow> bool" where
  "nullable st rest Null = False"
| "nullable st rest Eps = True"
| "nullable st rest Bol = st"
| "nullable st rest Eol = (rest = [] \<or> rest = [nl])"
| "nullable st rest Dot = False"
| "nullable st rest (Chr d) = False"
| "nullable st rest (Digit b) = False"
| "nullable st rest (Space b) = False"
| "nullable st rest (Cls neg items) = False"
| "nullable st rest (Seq r1 r2) = (nullable st rest r1 \<and> nullable st rest r2)"
| "nullable st rest (Alt r1 r2) = (nullable st rest r1 \<or> nullable st rest r2)"
| "nullable st rest (Star r) = True"
| "nullable st rest (Plus r) = nullable st rest r"
| "nullable st rest (Opt r) = True"

definition tok :: "bool \<Rightarrow> regex" where
  "tok b = (if b then Eps else Null)"

definition seq :: "regex \<Rightarrow> regex \<Rightarrow> regex" where
  "seq r1 r2 = (case r1 of Null \<Rightarrow> Null | _ \<Rightarrow> Seq r1 r2)"

definition alt :: "regex \<Rightarrow> regex \<Rightarrow> regex" where
  "alt r1 r2 = (case r1 of Null \<Rightarrow> r2 | _ \<Rightarrow> (case r2 of Null \<Rightarrow> r1 | _ \<Rightarrow> Alt r1 r2))"

fun deriv :: "bool \<Rightarrow> string \<Rightarrow> char \<Rightarrow> regex \<Rightarrow> regex" where
  "deriv st rest c Null = Null"
| "deriv st rest c Eps = Null"
| "deriv st rest c Bol = Null"
| "deriv st rest c Eol = Null"
| "deriv st rest c Dot = tok (c \<noteq> nl)"
| "deriv st rest c (Chr d) = tok (c = d)"
| "deriv st rest c (Digit b) = tok (py_isdigit c = b)"
| "deriv st rest c (Space b) = tok (py_isspace c = b)"
| "deriv st rest c (Cls neg items) = tok ((\<exists>i \<in> set items. citem_has c i) \<noteq> neg)"
| "deriv st rest c (Seq r1 r2) =
     alt (seq (deriv st rest c r1) r2)
         (if nullable st rest r1 then deriv st rest c r2 else Null)"
| "deriv st rest c (Alt r1 r2) = alt (deriv st rest c r1) (deriv st rest c r2)"
| "deriv st rest c (Star r) = seq (deriv st rest c r) (Star r)"
| "deriv st rest c (Plus r) = seq (deriv st rest c r) (Star r)"
| "deriv st rest c (Opt r) = deriv st rest c r"

text \<open>\<open>prefix_match st r s\<close>: some prefix of \<open>s\<close> is matched by \<open>r\<close>.\<close>

fun prefix_match :: "bool \<Rightarrow> regex \<Rightarrow> string \<Rightarrow> bool" where
  "prefix_match st r [] = nullable st [] r"
| "prefix_match st r (c # cs) =
     (nullable st (c # cs) r \<or> prefix_match False (deriv st (c # cs) c r) cs)"

text \<open>\<open>re.match(r, s) is not None\<close>, for a compiled pattern \<open>r\<close>.\<close>

definition re_match :: "regex \<Rightarrow> string \<Rightarrow> bool" where
  "re_match r s = prefix_match True r s"

fun search_from :: "bool \<Rightarrow> regex \<Rightarrow> string \<Rightarrow> bool" where
  "search_from st r [] = nullable st [] r"
| "search_from st r (c # cs) = (prefix_match st r (c # cs) \<or> search_from False r cs)"

text \<open>\<open>re.search(r, s) is not None\<close>, for a compiled pattern \<open>r\<close>.\<close>

definition re_search :: "regex \<Rightarrow> string \<Rightarrow> bool" where
  "re_search r s = search_from True r s"

subsection \<open>Compiling a pattern\<close>

text \<open>
  The parser reads the pattern left to right. It keeps a stack of open groups, each with its
  finished alternatives and the items of the alternative being read.
\<close>

datatype pmode =
    Normal | Esc | ClsOpen | ClsFirst bool
  | ClsThis bool "citem list" | ClsPend bool "citem list" char | ClsDash bool "citem list" char

type_synonym frame = "regex list \<times> regex list"

record pstate =
  frames :: "frame list"
  quantified :: bool
  fresh_group :: bool
  pmode :: pmode

fun mk_seq :: "regex list \<Rightarrow> regex" where
  "mk_seq [] = Eps"
| "mk_seq [a] = a"
| "mk_seq (a # as) = Seq a (mk_seq as)"

fun mk_alt :: "regex list \<Rightarrow> regex" where
  "mk_alt [] = Eps"
| "mk_alt [a] = a"
| "mk_alt (a # as) = Alt a (mk_alt as)"

definition close_frame :: "frame \<Rightarrow> regex" where
  "close_frame f = mk_alt (fst f @ [mk_seq (snd f)])"

text \<open>
  A closed group is one item, and a quantifier may follow it whatever it holds: \<open>($)?\<close> and
  \<open>(^)*\<close> compile, only a bare \<open>^\<close> or \<open>$\<close> leaves a quantifier with nothing to repeat. A
  group that holds just an anchor is therefore kept apart from the bare anchor.
\<close>

definition group_atom :: "regex \<Rightarrow> regex" where
  "group_atom r = (if r = Bol \<or> r = Eol then Seq r Eps else r)"

definition add_atom :: "regex \<Rightarrow> pstate \<Rightarrow> error + pstate" where
  "add_atom a st =
     (case frames st of
        [] \<Rightarrow> Inl ReError
      | (alts, cur) # fs \<Rightarrow>
          Inr (st\<lparr>frames := (alts, cur @ [a]) # fs, quantified := False,
                  fresh_group := False, pmode := Normal\<rparr>))"

definition quantify :: "(regex \<Rightarrow> regex) \<Rightarrow> pstate \<Rightarrow> error + pstate" where
  "quantify q st =
     (case frames st of
        [] \<Rightarrow> Inl ReError
      | (alts, cur) # fs \<Rightarrow>
          if cur = [] \<or> last cur = Bol \<or> last cur = Eol then Inl ReError
          else Inr (st\<lparr>frames := (alts, butlast cur @ [q (last cur)]) # fs,
                       quantified := True, fresh_group := False\<rparr>))"

definition is_ascii_alnum :: "char \<Rightarrow> bool" where
  "is_ascii_alnum c =
     (let n = (of_char c :: nat)
      in (48 \<le> n \<and> n \<le> 57) \<or> (65 \<le> n \<and> n \<le> 90) \<or> (97 \<le> n \<and> n \<le> 122))"

definition pstep_normal :: "char \<Rightarrow> pstate \<Rightarrow> error + pstate" where
  "pstep_normal c st =
     (if c = CHR 0x5C then Inr (st\<lparr>pmode := Esc, fresh_group := False\<rparr>)
      else if c = CHR ''['' then Inr (st\<lparr>pmode := ClsOpen, fresh_group := False\<rparr>)
      else if c = CHR ''('' then
        Inr (st\<lparr>frames := ([], []) # frames st, quantified := False, fresh_group := True\<rparr>)
      else if c = CHR '')'' then
        (case frames st of
           f # g # fs \<Rightarrow> add_atom (group_atom (close_frame f)) (st\<lparr>frames := g # fs\<rparr>)
         | _ \<Rightarrow> Inl ReError)
      else if c = CHR ''|'' then
        (case frames st of
           [] \<Rightarrow> Inl ReError
         | (alts, cur) # fs \<Rightarrow>
             Inr (st\<lparr>frames := (alts @ [mk_seq cur], []) # fs, quantified := False,
                     fresh_group := False\<rparr>))
      else if c = CHR ''?'' then
        (if fresh_group st \<or> quantified st then Inl Unsupported else quantify Opt st)
      else if c = CHR ''*'' then
        (if quantified st then Inl ReError else quantify Star st)
      else if c = CHR ''+'' then
        (if quantified st then Inl Unsupported else quantify Plus st)
      else if c = CHR ''{'' then Inl Unsupported
      else if c = CHR ''.'' then add_atom Dot st
      else if c = CHR ''^'' then add_atom Bol st
      else if c = CHR ''$'' then add_atom Eol st
      else add_atom (Chr c) st)"

definition pstep_esc :: "char \<Rightarrow> pstate \<Rightarrow> error + pstate" where
  "pstep_esc c st =
     (if c = CHR ''d'' then add_atom (Digit True) st
      else if c = CHR ''D'' then add_atom (Digit False) st
      else if c = CHR ''s'' then add_atom (Space True) st
      else if c = CHR ''S'' then add_atom (Space False) st
      else if is_ascii_alnum c then Inl Unsupported
      else add_atom (Chr c) st)"

definition pstep_cls :: "char \<Rightarrow> pstate \<Rightarrow> error + pstate" where
  "pstep_cls c st =
     (case pmode st of
        ClsOpen \<Rightarrow>
          if c = CHR ''^'' then Inr (st\<lparr>pmode := ClsFirst True\<rparr>)
          else if c = CHR 0x5C then Inl Unsupported
          else Inr (st\<lparr>pmode := ClsPend False [] c\<rparr>)
      | ClsFirst neg \<Rightarrow>
          if c = CHR 0x5C then Inl Unsupported
          else Inr (st\<lparr>pmode := ClsPend neg [] c\<rparr>)
      | ClsThis neg items \<Rightarrow>
          if c = CHR '']'' then add_atom (Cls neg items) st
          else if c = CHR 0x5C then Inl Unsupported
          else Inr (st\<lparr>pmode := ClsPend neg items c\<rparr>)
      | ClsPend neg items this \<Rightarrow>
          if c = CHR ''-'' then Inr (st\<lparr>pmode := ClsDash neg items this\<rparr>)
          else if c = CHR '']'' then add_atom (Cls neg (items @ [IChr this])) st
          else if c = CHR 0x5C then Inl Unsupported
          else Inr (st\<lparr>pmode := ClsPend neg (items @ [IChr this]) c\<rparr>)
      | ClsDash neg items lo \<Rightarrow>
          if c = CHR '']'' then add_atom (Cls neg (items @ [IChr lo, IChr CHR ''-''])) st
          else if c = CHR 0x5C then Inl Unsupported
          else if (of_char c :: nat) < of_char lo then Inl ReError
          else Inr (st\<lparr>pmode := ClsThis neg (items @ [IRange lo c])\<rparr>)
      | _ \<Rightarrow> Inl ReError)"

definition pstep :: "char \<Rightarrow> pstate \<Rightarrow> error + pstate" where
  "pstep c st =
     (case pmode st of
        Normal \<Rightarrow> pstep_normal c st
      | Esc \<Rightarrow> pstep_esc c st
      | _ \<Rightarrow> pstep_cls c st)"

fun parse_from :: "pstate \<Rightarrow> string \<Rightarrow> error + pstate" where
  "parse_from st [] = Inr st"
| "parse_from st (c # cs) =
     (case pstep c st of Inl e \<Rightarrow> Inl e | Inr st' \<Rightarrow> parse_from st' cs)"

text \<open>\<open>re.compile(pattern)\<close>\<close>

definition re_compile :: "string \<Rightarrow> error + regex" where
  "re_compile pattern =
     (case parse_from \<lparr>frames = [([], [])], quantified = False, fresh_group = False,
                        pmode = Normal\<rparr> pattern of
        Inl e \<Rightarrow> Inl e
      | Inr st \<Rightarrow>
          (case (pmode st, frames st) of
             (Normal, [f]) \<Rightarrow> Inr (close_frame f)
           | _ \<Rightarrow> Inl ReError))"

text \<open>
  The patterns that the source writes as literals all compile (lemma
  \<open>source_patterns_compile\<close> below); \<open>re_of\<close> is \<open>re.compile\<close> for them.
\<close>

definition re_of :: "string \<Rightarrow> regex" where
  "re_of pattern = (case re_compile pattern of Inr r \<Rightarrow> r | Inl e \<Rightarrow> Null)"

definition bs :: char where
  "bs = CHR 0x5C"

section \<open>Classifying a command line\<close>

definition is_ignorable :: "string \<Rightarrow> bool" where
  "is_ignorable line = (length (strip line) = 0 \<or> startswith line ''#'')"

definition generates_table :: "string \<Rightarrow> bool" where
  "generates_table line =
     (startswith line ''$ ndcli list'' \<or> startswith line ''$ ndcli dump zone'' \<or>
      startswith line ''$ ndcli history'')"

definition generates_map :: "string \<Rightarrow> bool" where
  "generates_map line =
     (startswith line ''$ ndcli show'' \<or> startswith line ''$ ndcli modify rr'' \<or>
      re_search (re_of ''(get|mark) (ip|delegation)'') line \<or>
      re_search (re_of ''ndcli create rr .* from'') line)"

definition is_pdns_query :: "string \<Rightarrow> bool" where
  "is_pdns_query line = (contains line ''dig'' \<or> contains line ''drill'')"

section \<open>Tables\<close>

text \<open>
  A cell of an expected table is a \<open>str\<close> or a compiled pattern. The cells of an actual
  table are always \<open>str\<close>: \<open>add_regex\<close> is applied to the expected table only.
\<close>

datatype cell = Lit string | Pat regex

type_synonym row = "string list"
type_synonym erow = "cell list"

section \<open>table_from_lines\<close>

text \<open>The loop that finds the offset of each header in the header line.\<close>

fun header_offsets :: "string \<Rightarrow> int list \<Rightarrow> string list \<Rightarrow> int list" where
  "header_offsets line0 offsets [] = offsets"
| "header_offsets line0 offsets (header # headers) =
     (let start_find = (if offsets \<noteq> [] then last offsets + 1 else 0)
      in header_offsets line0 (offsets @ [py_find line0 header start_find]) headers)"

text \<open>The loop over \<open>enumerate(offsets)\<close> that cuts one line into the cells of a row.\<close>

fun slice_row :: "string \<Rightarrow> int list \<Rightarrow> row" where
  "slice_row line [] = []"
| "slice_row line (offset # rest) =
     (if offset < int (length line) then
        strip (py_slice line offset
                 (case rest of
                    [] \<Rightarrow> int (length line)
                  | next_offset # _ \<Rightarrow> min next_offset (int (length line))))
      else []) # slice_row line rest"

definition table_from_lines :: "string list \<Rightarrow> string \<Rightarrow> row list" where
  "table_from_lines lines cmd =
     (if generates_map cmd then
        map (split_once CHR '':'') (filter (\<lambda>line. \<not> is_ignorable line) lines)
      else if contains cmd '' -H'' \<or> contains cmd ''dump zone'' then
        map (split_on (CHR 0x09)) (filter (\<lambda>line. \<not> is_ignorable line) lines)
      else
        (case dropWhile is_ignorable lines of
           [] \<Rightarrow> []
         | line0 # rest \<Rightarrow>
             (let headers = split_ws line0;
                  offsets = header_offsets line0 [] headers
              in map (\<lambda>line. slice_row line offsets)
                   (filter (\<lambda>line. \<not> is_ignorable line) (line0 # rest)))))"

section \<open>add_regex\<close>

text \<open>Reading and writing a cell by index; an index out of range raises.\<close>

definition get_cell :: "erow \<Rightarrow> nat \<Rightarrow> error + cell" where
  "get_cell row k = (if k < length row then Inr (row ! k) else Inl IndexError)"

definition set_cell :: "nat \<Rightarrow> cell \<Rightarrow> erow \<Rightarrow> error + erow" where
  "set_cell k v row = (if k < length row then Inr (row[k := v]) else Inl IndexError)"

text \<open>A loop over the rows that rewrites each row; the first exception ends it.\<close>

fun for_rows :: "(erow \<Rightarrow> error + erow) \<Rightarrow> erow list \<Rightarrow> error + erow list" where
  "for_rows f [] = Inr []"
| "for_rows f (row # rows) =
     bind (f row) (\<lambda>row'. bind (for_rows f rows) (\<lambda>rows'. Inr (row' # rows')))"

definition when_cmd :: "bool \<Rightarrow> ('a \<Rightarrow> error + 'a) \<Rightarrow> 'a \<Rightarrow> error + 'a" where
  "when_cmd b f x = (if b then f x else Inr x)"

definition pat_any :: cell where
  "pat_any = Pat (re_of ''.*'')"

definition pat_digits :: cell where
  "pat_digits = Pat (re_of (bs # ''d*''))"

definition pat_digit :: cell where
  "pat_digit = Pat (re_of [bs, CHR ''d''])"

definition pat_key_name :: cell where
  "pat_key_name = Pat (re_of ''.*_[zk]sk_.*'')"

definition pat_ds :: cell where
  "pat_ds = Pat (re_of (bs # ''d+ 8 2 .*''))"

definition pat_serial :: cell where
  "pat_serial = Pat (re_of (''set_attr serial='' @ bs # ''d+''))"

text \<open>\<open>'%s %s \d+ \d+ \d+ \d+ \d+' % (stuff[0], stuff[1])\<close>\<close>

definition soa_pattern :: "string \<Rightarrow> string \<Rightarrow> string" where
  "soa_pattern s0 s1 =
     s0 @ '' '' @ s1 @ '' '' @ bs # ''d+ '' @ bs # ''d+ '' @ bs # ''d+ '' @ bs # ''d+ '' @ bs # ''d+''"

definition created_key_pattern :: string where
  "created_key_pattern = ''.*Created key .*_[zk]sk_.* for zone (.*)''"

definition creating_ds_pattern :: string where
  "creating_ds_pattern = ''.*Creating RR .* DS '' @ bs # ''d+ 8 2 .* in zone .*''"

definition deleting_ds_pattern :: string where
  "deleting_ds_pattern = ''.*Deleting RR .* DS '' @ bs # ''d+ 8 2 .* from zone .*''"

text \<open>The branch for commands that print a map.\<close>

definition map_row :: "erow \<Rightarrow> error + erow" where
  "map_row row =
     bind (get_cell row 0) (\<lambda>c.
       if c \<in> set [Lit ''created'', Lit ''modified''] then set_cell 1 pat_any row
       else if c \<in> set [Lit ''created_by'', Lit ''modified_by''] then set_cell 1 pat_any row
       else Inr row)"

text \<open>The four loops for the listings of the keys of a zone.\<close>

definition keys_row1 :: "erow \<Rightarrow> error + erow" where
  "keys_row1 row =
     bind (set_cell 0 pat_key_name row) (\<lambda>row.
     bind (set_cell 2 pat_digits row) (\<lambda>row. set_cell 5 pat_any row))"

definition dnskeys_row :: "erow \<Rightarrow> error + erow" where
  "dnskeys_row row =
     bind (set_cell 0 pat_digits row) (\<lambda>row.
     bind (set_cell 1 pat_digits row) (\<lambda>row. set_cell 3 pat_any row))"

definition keys_row2 :: "erow \<Rightarrow> error + erow" where
  "keys_row2 row =
     bind (set_cell 0 pat_any row) (\<lambda>row.
     bind (set_cell 2 pat_digits row) (\<lambda>row. set_cell 5 pat_any row))"

definition ds_row :: "erow \<Rightarrow> error + erow" where
  "ds_row row =
     bind (set_cell 0 pat_digits row) (\<lambda>row.
     bind (set_cell 2 pat_digit row) (\<lambda>row. set_cell 3 pat_any row))"

definition ds_rows :: "erow list \<Rightarrow> error + erow list" where
  "ds_rows table =
     (case table of
        [] \<Rightarrow> Inr []
      | row # rows \<Rightarrow> bind (for_rows ds_row rows) (\<lambda>rows'. Inr (row # rows')))"

text \<open>The loop over \<open>rr_col in [2, 3, 4]\<close> for the listings of resource records.\<close>

definition rr_step :: "nat \<Rightarrow> erow \<Rightarrow> error + erow" where
  "rr_step rr_col rr_row =
     (if rr_col + 1 < length rr_row then
        (if rr_row ! rr_col = Lit ''SOA'' then
           (case rr_row ! (rr_col + 1) of
              Pat r \<Rightarrow> Inl AttributeError
            | Lit s \<Rightarrow>
                (let stuff = split_ws s
                 in if length stuff < 2 then Inl IndexError
                    else bind (re_compile (soa_pattern (stuff ! 0) (stuff ! 1)))
                           (\<lambda>r. Inr (rr_row[rr_col + 1 := Pat r]))))
         else if rr_row ! rr_col = Lit ''DS'' then Inr (rr_row[rr_col + 1 := pat_ds])
         else Inr rr_row)
      else Inr rr_row)"

definition rr_row :: "erow \<Rightarrow> error + erow" where
  "rr_row row = bind (rr_step 2 row) (\<lambda>row. bind (rr_step 3 row) (\<lambda>row. rr_step 4 row))"

text \<open>The loop for the history listings.\<close>

definition history_row :: "erow \<Rightarrow> error + erow" where
  "history_row row =
     bind (get_cell row 0) (\<lambda>c0.
       let row = (if c0 \<noteq> Lit ''timestamp'' then row[0 := pat_any] else row)
       in case last row of
            Pat r \<Rightarrow> Inl AttributeError
          | Lit s \<Rightarrow>
              (let row = (if startswith s ''set_attr serial=''
                          then row[length row - 1 := pat_serial] else row)
               in bind (get_cell row 4) (\<lambda>c4.
                    if c4 = Lit ''key'' then set_cell 5 pat_any row else Inr row)))"

text \<open>The inner function \<open>check_regexes(table, regexes)\<close>.\<close>

definition check_row :: "regex list \<Rightarrow> erow \<Rightarrow> error + erow" where
  "check_row regexes row =
     bind (get_cell row 0) (\<lambda>c.
       case c of
         Pat r \<Rightarrow> Inl TypeError
       | Lit s \<Rightarrow>
           (case List.find (\<lambda>regex. re_search regex s) regexes of
              None \<Rightarrow> Inr row
            | Some regex \<Rightarrow> Inr (row[0 := Pat regex])))"

definition check_regexes :: "erow list \<Rightarrow> string list \<Rightarrow> error + erow list" where
  "check_regexes table regexes = for_rows (check_row (map re_of regexes)) table"

text \<open>
  \<open>add_regex\<close> receives a table of \<open>str\<close> cells. The rules for a table stack, so a later
  rule can meet a cell that an earlier one has replaced by a pattern.
\<close>

definition add_regex :: "row list \<Rightarrow> string \<Rightarrow> error + erow list" where
  "add_regex table0 cmd =
     (let table = map (map Lit) table0
      in if generates_map cmd then for_rows map_row table
         else if generates_table cmd then
           bind (when_cmd (re_search (re_of ''list zone .* keys'') cmd) (for_rows keys_row1) table)
             (\<lambda>table.
           bind (when_cmd (re_search (re_of ''list zone .* dnskeys'') cmd) (for_rows dnskeys_row) table)
             (\<lambda>table.
           bind (when_cmd (re_search (re_of ''list zone .* keys'') cmd) (for_rows keys_row2) table)
             (\<lambda>table.
           bind (when_cmd (re_search (re_of ''list zone .* ds'') cmd) ds_rows table)
             (\<lambda>table.
           if contains cmd ''dcli list zone'' \<or> contains cmd ''dcli dump zone'' \<or>
              contains cmd ''dcli list rrs''
           then for_rows rr_row table
           else if contains cmd ''dcli history'' then for_rows history_row table
           else Inr table))))
         else if contains cmd ''dnssec enable'' \<or> contains cmd ''dnssec new'' then
           check_regexes table [created_key_pattern, creating_ds_pattern]
         else if contains cmd ''dnssec disable'' \<or> contains cmd ''dnssec delete'' \<or>
                 contains cmd ''delete zone'' then
           check_regexes table [deleting_ds_pattern]
         else Inr table)"

section \<open>match_table\<close>

text \<open>The inner function \<open>match(row, info)\<close> of \<open>match_table\<close>.\<close>

fun match_cell :: "string \<Rightarrow> cell \<Rightarrow> bool" where
  "match_cell a (Lit s) = (s = a)"
| "match_cell a (Pat r) = re_match r a"

fun match_cells :: "row \<Rightarrow> erow \<Rightarrow> bool" where
  "match_cells (a # as) (i # is) = (if match_cell a i then match_cells as is else False)"
| "match_cells _ _ = True"

definition match :: "row \<Rightarrow> erow \<Rightarrow> bool" where
  "match row info = (if length row \<noteq> length info then False else match_cells row info)"

text \<open>
  The dictionary \<open>matched\<close> is a list of pairs in insertion order. The inner loop over the
  expected rows, from index \<open>expected_no\<close> on, returns the index it breaks at.
\<close>

fun find_expected :: "(nat \<times> nat) list \<Rightarrow> row \<Rightarrow> nat \<Rightarrow> erow list \<Rightarrow> nat option" where
  "find_expected matched row expected_no [] = None"
| "find_expected matched row expected_no (expected_row # rest) =
     (if expected_no \<notin> set (map snd matched) \<and> match row expected_row then Some expected_no
      else find_expected matched row (Suc expected_no) rest)"

fun match_rows :: "(nat \<times> nat) list \<Rightarrow> nat \<Rightarrow> row list \<Rightarrow> erow list \<Rightarrow> (nat \<times> nat) list" where
  "match_rows matched no [] expected_table = matched"
| "match_rows matched no (row # rows) expected_table =
     (case find_expected matched row 0 expected_table of
        None \<Rightarrow> match_rows matched (Suc no) rows expected_table
      | Some expected_no \<Rightarrow>
          match_rows (matched @ [(no, expected_no)]) (Suc no) rows expected_table)"

text \<open>\<open>[expected_raw[i] for i in ...]\<close>: an index out of range raises.\<close>

fun pick :: "string list \<Rightarrow> nat list \<Rightarrow> error + string list" where
  "pick expected_raw [] = Inr []"
| "pick expected_raw (i # is) =
     (if i < length expected_raw then
        (case pick expected_raw is of Inl e \<Rightarrow> Inl e | Inr xs \<Rightarrow> Inr (expected_raw ! i # xs))
      else Inl IndexError)"

text \<open>The loop over \<open>actual_raw\<close>; \<open>pop(0)\<close> on an empty list raises.\<close>

fun compose :: "(nat \<times> nat) list \<Rightarrow> nat \<Rightarrow> string list \<Rightarrow> string list \<Rightarrow> error + string list" where
  "compose matched no [] expected_matched = Inr []"
| "compose matched no (row # rows) expected_matched =
     (if no \<in> set (map fst matched) then
        (case expected_matched of
           [] \<Rightarrow> Inl IndexError
         | e # es \<Rightarrow>
             (case compose matched (Suc no) rows es of
                Inl err \<Rightarrow> Inl err | Inr result \<Rightarrow> Inr (e # result)))
      else
        (case compose matched (Suc no) rows expected_matched of
           Inl err \<Rightarrow> Inl err | Inr result \<Rightarrow> Inr (row # result)))"

definition match_table :: "row list \<Rightarrow> erow list \<Rightarrow> string list \<Rightarrow> string list \<Rightarrow> error + string list" where
  "match_table actual_table expected_table actual_raw expected_raw =
     (let matched = match_rows [] 0 actual_table expected_table
      in case pick expected_raw (sort (map snd matched)) of
           Inl e \<Rightarrow> Inl e
         | Inr expected_matched \<Rightarrow> compose matched 0 actual_raw expected_matched)"

text \<open>
  The matching rule in the words of the specification: the row lengths are equal and every
  cell is an exact literal match or, for a compiled pattern, a match anchored at the start.
  \<open>spec_first_match used row expected_table\<close> is the first expected row, in declaration
  order, that is not in \<open>used\<close> and that the rule accepts.
\<close>

definition spec_cell_ok :: "string \<Rightarrow> cell \<Rightarrow> bool" where
  "spec_cell_ok a c = (case c of Lit s \<Rightarrow> a = s | Pat r \<Rightarrow> re_match r a)"

definition spec_row_ok :: "row \<Rightarrow> erow \<Rightarrow> bool" where
  "spec_row_ok row info = list_all2 spec_cell_ok row info"

definition spec_first_match :: "nat set \<Rightarrow> row \<Rightarrow> erow list \<Rightarrow> nat option" where
  "spec_first_match used row expected_table =
     List.find (\<lambda>j. j \<notin> used \<and> spec_row_ok row (expected_table ! j))
       [0..<length expected_table]"

section \<open>process_command\<close>

text \<open>
  \<open>out\<close> is the list of the strings written, in order; the file holds their
  concatenation. The strings of \<open>actual_output\<close> carry no newline, those of
  \<open>expected_output\<close> are transcript lines. Both are lists of \<open>str\<close> here; the call that
  \<open>run_test\<close> makes, with \<open>bytes\<close> lines, is \<open>process_command_bytes\<close> below.
\<close>

fun zip_longest :: "string list \<Rightarrow> string list \<Rightarrow> (string \<times> string) list" where
  "zip_longest [] [] = []"
| "zip_longest (a # as) [] = (a, []) # zip_longest as []"
| "zip_longest [] (e # es) = ([], e) # zip_longest [] es"
| "zip_longest (a # as) (e # es) = (a, e) # zip_longest as es"

fun compare_lines :: "bool \<Rightarrow> (string \<times> string) list \<Rightarrow> error + (string list \<times> bool)" where
  "compare_lines passed [] = Inr ([], passed)"
| "compare_lines passed ((actual, expected0) # rest) =
     (let expected = strip_nl expected0
      in if endswith expected '' re'' then
           (case re_compile (take (length expected - 3) expected) of
              Inl e \<Rightarrow> Inl e
            | Inr r \<Rightarrow>
                if re_match r actual then
                  (case compare_lines passed rest of
                     Inl e \<Rightarrow> Inl e
                   | Inr (out, p) \<Rightarrow> Inr ((expected @ [nl]) # out, p))
                else
                  (case compare_lines False rest of
                     Inl e \<Rightarrow> Inl e
                   | Inr (out, p) \<Rightarrow> Inr ((actual @ [nl]) # out, p)))
         else
           (case compare_lines (if actual \<noteq> expected then False else passed) rest of
              Inl e \<Rightarrow> Inl e
            | Inr (out, p) \<Rightarrow> Inr ((actual @ [nl]) # out, p)))"

definition process_command ::
    "string list \<Rightarrow> string list \<Rightarrow> bool \<Rightarrow> error + (string list \<times> bool)" where
  "process_command actual_output expected_output sort_before =
     (let actual_output = (if sort_before then sort actual_output else actual_output);
          expected_output = (if sort_before then sort expected_output else expected_output)
      in compare_lines True (zip_longest actual_output expected_output))"

text \<open>
  The rule for one pair of lines in the words of the specification: an expected line that
  ends in the suffix \<open>" re"\<close> is a pattern (the suffix stripped) matched at the start of the
  actual line; on a match the expected text is kept, otherwise the actual line is kept and
  the line fails. Any other expected line must equal the actual line, which is kept.
\<close>

definition spec_line_ok :: "string \<Rightarrow> string \<Rightarrow> bool" where
  "spec_line_ok actual expected =
     (if endswith expected '' re'' then
        (case re_compile (take (length expected - 3) expected) of
           Inl e \<Rightarrow> False
         | Inr r \<Rightarrow> re_match r actual)
      else actual = expected)"

definition spec_line_out :: "string \<Rightarrow> string \<Rightarrow> string" where
  "spec_line_out actual expected =
     (if endswith expected '' re'' \<and> spec_line_ok actual expected then expected @ [nl]
      else actual @ [nl])"

text \<open>The \<open>i\<close>-th element of a sequence padded with empty strings.\<close>

definition pad :: "string list \<Rightarrow> nat \<Rightarrow> string" where
  "pad xs i = (if i < length xs then xs ! i else [])"

section \<open>run_test\<close>

text \<open>
  The external collaborators act on a world \<open>'w\<close> that the model threads through the run:
  \<open>run_command\<close> (the command line tool, given the directive line and the heredoc input; its
  result is a \<open>str\<close>), \<open>run_system_command\<close> (the shell), \<open>setup_pdns_output\<close> and
  \<open>compare_dim_pdns_zones\<close> (the two calls of \<open>check_pdns_output\<close> into the export check).

  \<open>run_system_command\<close> opens its pipes without text mode and returns
  \<open>stdout.splitlines() + stderr.splitlines()\<close>: a list of \<open>bytes\<close> objects. The model
  writes a \<open>bytes\<close> object as the list of its bytes; it has the type of a \<open>str\<close>, and the
  functions below say which of the two a value is.
\<close>

record 'w tools =
  run_command :: "string \<Rightarrow> string option \<Rightarrow> 'w \<Rightarrow> (error + string) \<times> 'w"
  run_system_command :: "string \<Rightarrow> 'w \<Rightarrow> (error + string list) \<times> 'w"
  setup_pdns_output :: "'w \<Rightarrow> (error + unit) \<times> 'w"
  compare_dim_pdns_zones :: "'w \<Rightarrow> (error + bool) \<times> 'w"

text \<open>
  \<open>PDNSOutputProcess.wait_updates\<close>. When the listener is needed, the first statement of
  the polling loop hands a \<open>str\<close> as \<open>input\<close> to \<open>communicate\<close> on a pipe that is not in
  text mode; that raises \<open>TypeError\<close> before anything is read. When it is not needed the
  method does nothing.
\<close>

definition wait_updates :: "bool \<Rightarrow> error + unit" where
  "wait_updates needed = (if needed then Inl TypeError else Inr ())"

text \<open>
  \<open>process_command\<close> as \<open>run_test\<close> calls it, with the \<open>bytes\<close> lines of
  \<open>run_system_command\<close> for \<open>actual_output\<close>. The first pair of the loop holds the first
  actual line whenever there is one. For a \<open>bytes\<close> object \<open>actual\<close>, \<open>re.match\<close> with a
  \<open>str\<close> pattern raises \<open>TypeError\<close> (once the pattern has compiled), and so does
  \<open>actual + '\n'\<close>; nothing has been written by then. When the command printed nothing,
  every \<open>actual\<close> is the fill value \<open>''\<close>, a \<open>str\<close>, and the loop is the one of
  \<open>process_command\<close> above.
\<close>

definition process_command_bytes ::
    "string list \<Rightarrow> string list \<Rightarrow> bool \<Rightarrow> error + (string list \<times> bool)" where
  "process_command_bytes actual_output expected_output sort_before =
     (let actual_output = (if sort_before then sort actual_output else actual_output);
          expected_output = (if sort_before then sort expected_output else expected_output)
      in case actual_output of
           [] \<Rightarrow> compare_lines True (zip_longest [] expected_output)
         | actual # rest \<Rightarrow>
             (let expected = strip_nl (pad expected_output 0)
              in if endswith expected '' re'' then
                   (case re_compile (take (length expected - 3) expected) of
                      Inl e \<Rightarrow> Inl e
                    | Inr r \<Rightarrow> Inl TypeError)
                 else Inl TypeError))"

text \<open>
  The trace of a run is not part of the source. It records, for each directive that was
  executed, what was compared: the directive line, the expected block, the result of the
  command and, for a command line directive, the outcome of the side-channel check
  (\<open>True\<close> when it was not run).
\<close>

datatype directive =
    Cli string "string list" string bool
  | Shell string "string list" "string list"

text \<open>\<open>split_cat_command\<close>; the word is always \<open>EOF\<close>.\<close>

definition split_cat_command :: "string \<Rightarrow> error + (string \<times> string)" where
  "split_cat_command line =
     (let parts = split_on CHR ''|'' line
      in if length parts < 2 then Inl IndexError else Inr (''EOF'', CHR ''$'' # parts ! 1))"

text \<open>
  \<open>get_cat_input\<close> returns the input it collected, the lines it wrote and the lines it left.
\<close>

fun get_cat_input :: "string list \<Rightarrow> string \<Rightarrow> string \<times> string list \<times> string list" where
  "get_cat_input [] word = ([], [], [])"
| "get_cat_input (line # lines) word =
     (if line = word @ [nl] then ([], [line], lines)
      else (case get_cat_input lines word of
              (cat_input, written, rest) \<Rightarrow> (line @ cat_input, line # written, rest)))"

definition read_heredoc ::
    "string \<Rightarrow> string list \<Rightarrow> error + (string \<times> string option \<times> string list \<times> string list)" where
  "read_heredoc line lines =
     (if startswith line ''$ cat <<EOF | ndcli'' then
        bind (split_cat_command line) (\<lambda>(word, line').
          case get_cat_input lines word of
            (cat_input, written, rest) \<Rightarrow> Inr (line', Some cat_input, written, rest))
      else Inr (line, None, [], lines))"

text \<open>
  The second loop of the block collection. \<open>lines[0:0] = expected_result.pop()\<close> assigns a
  \<open>str\<close> to a slice of a list, which inserts the characters of the string as separate
  elements.
\<close>

fun push_back :: "string list \<Rightarrow> string list \<Rightarrow> string list \<times> string list" where
  "push_back expected_result lines =
     (if expected_result \<noteq> [] \<and> is_ignorable (last expected_result) then
        push_back (butlast expected_result) (map (\<lambda>c. [c]) (last expected_result) @ lines)
      else (expected_result, lines))"

declare push_back.simps [simp del]

definition collect_block :: "string list \<Rightarrow> string list \<times> string list" where
  "collect_block lines =
     push_back (takeWhile (\<lambda>l. \<not> startswith l ''$ '') lines)
               (dropWhile (\<lambda>l. \<not> startswith l ''$ '') lines)"

definition zone_commands :: "string list" where
  "zone_commands =
     concat (map (\<lambda>c. map (\<lambda>ob. c @ ob) [''rr'', ''zone'', ''zone-profile'', ''zone-group''])
                 [''create '', ''delete '', ''modify ''])"

text \<open>
  \<open>check_pdns_output\<close> returns what it wrote and its result. \<open>needed\<close> is the flag of the
  listener \<open>pdns_output_proc\<close>.
\<close>

definition check_pdns_output ::
    "'w tools \<Rightarrow> bool \<Rightarrow> string \<Rightarrow> 'w \<Rightarrow> (error + (string list \<times> bool)) \<times> 'w" where
  "check_pdns_output T needed line w =
     (if \<not> list_ex (\<lambda>cmd. startswith (drop 8 line) cmd) zone_commands then (Inr ([], True), w)
      else (case setup_pdns_output T w of
              (Inl e, w1) \<Rightarrow> (Inl e, w1)
            | (Inr u, w1) \<Rightarrow>
                (case wait_updates needed of
                   Inl e \<Rightarrow> (Inl e, w1)
                 | Inr u' \<Rightarrow>
                     (case compare_dim_pdns_zones T w1 of
                        (Inl e, w2) \<Rightarrow> (Inl e, w2)
                      | (Inr good, w2) \<Rightarrow>
                          (Inr (if good then [] else [''Zone incorrectly exported\<newline>''], good),
                           w2)))))"

text \<open>The two tables that \<open>run_test\<close> hands to \<open>match_table\<close>, before annotation.\<close>

definition actual_table_of :: "string \<Rightarrow> string \<Rightarrow> row list" where
  "actual_table_of line result =
     (if generates_table line \<or> generates_map line
      then table_from_lines (split_on nl result) line
      else map (\<lambda>x. [x]) (splitlines True result))"

definition expected_table_of :: "string \<Rightarrow> string list \<Rightarrow> row list" where
  "expected_table_of line expected_result =
     (if generates_table line \<or> generates_map line
      then table_from_lines (map strip_nl expected_result) line
      else map (\<lambda>x. [x]) expected_result)"

text \<open>
  One directive: what is written after the directive line, \<open>ok\<close>, the trace entry.
  \<open>pdns_needed\<close> is the flag that \<open>run_test\<close> gives the listener.
\<close>

definition run_directive ::
    "'w tools \<Rightarrow> bool \<Rightarrow> bool \<Rightarrow> string \<Rightarrow> string option \<Rightarrow> string list \<Rightarrow> 'w \<Rightarrow>
     error + (string list \<times> bool \<times> directive \<times> 'w)" where
  "run_directive T pdns_needed auto_pdns_check line cmd_input expected_result w =
     (if startswith line ''$ ndcli'' then
        (case run_command T line cmd_input w of
           (Inl e, w1) \<Rightarrow> Inl e
         | (Inr result, w1) \<Rightarrow>
             bind (add_regex (expected_table_of line expected_result) line) (\<lambda>expected_table.
             bind (match_table (actual_table_of line result) expected_table
                     (splitlines True result) expected_result) (\<lambda>output.
               if auto_pdns_check then
                 (case check_pdns_output T pdns_needed line w1 of
                    (Inl e, w2) \<Rightarrow> Inl e
                  | (Inr (msg, good), w2) \<Rightarrow>
                      Inr (output @ msg, output = expected_result \<and> good,
                           Cli line expected_result result good, w2))
               else Inr (output, output = expected_result,
                         Cli line expected_result result True, w1))))
      else
        (let line = strip_nl line
         in case (if is_pdns_query line then wait_updates pdns_needed else Inr ()) of
              Inl e \<Rightarrow> Inl e
            | Inr u \<Rightarrow>
                (case run_system_command T (drop 2 line) w of
                   (Inl e, w1) \<Rightarrow> Inl e
                 | (Inr result, w1) \<Rightarrow>
                     bind (process_command_bytes result expected_result (is_pdns_query line))
                       (\<lambda>(written, passed).
                          Inr (written, passed, Shell line expected_result result, w1)))))"

text \<open>The size of the cursor: its characters, then its elements.\<close>

definition chars :: "string list \<Rightarrow> nat" where
  "chars lines = sum_list (map length lines)"

lemma chars_simps [simp]:
  "chars [] = 0" "chars (l # ls) = length l + chars ls" "chars (xs @ ys) = chars xs + chars ys"
  by (simp_all add: chars_def)

lemma chars_explode [simp]: "chars (map (\<lambda>c. [c]) s) = length s"
  by (induction s) simp_all

lemma get_cat_input_rest:
  "get_cat_input lines word = (ci, wr, rest) \<Longrightarrow>
     chars rest \<le> chars lines \<and> length rest \<le> length lines"
proof (induction lines arbitrary: ci wr rest)
  case Nil
  then show ?case by simp
next
  case (Cons l ls)
  show ?case
  proof (cases "l = word @ [nl]")
    case True
    with Cons.prems show ?thesis by simp
  next
    case False
    obtain ci' wr' rest' where g: "get_cat_input ls word = (ci', wr', rest')"
      by (cases "get_cat_input ls word")
    with Cons.prems False have "rest = rest'" by simp
    with Cons.IH [OF g] show ?thesis by simp
  qed
qed

lemma read_heredoc_rest:
  "read_heredoc line lines = Inr (line', ci, wr, rest) \<Longrightarrow>
     chars rest \<le> chars lines \<and> length rest \<le> length lines \<and>
     (startswith line' ''$ '' \<longrightarrow> line \<noteq> [])"
proof (cases "startswith line ''$ cat <<EOF | ndcli''")
  case True
  assume a: "read_heredoc line lines = Inr (line', ci, wr, rest)"
  from True have ne: "line \<noteq> []" by (auto simp: startswith_def)
  from a True obtain word l2 where "split_cat_command line = Inr (word, l2)"
    by (auto simp: read_heredoc_def bind_def split: sum.splits)
  with a True obtain ci' where "get_cat_input lines word = (ci', wr, rest)"
    by (auto simp: read_heredoc_def bind_def split: sum.splits prod.splits)
  from get_cat_input_rest [OF this] ne show ?thesis by simp
next
  case False
  assume a: "read_heredoc line lines = Inr (line', ci, wr, rest)"
  with False have "rest = lines" "line' = line" by (simp_all add: read_heredoc_def)
  then show ?thesis by (auto simp: startswith_def)
qed

lemma push_back_chars:
  "chars (snd (push_back er lines)) \<le> chars er + chars lines"
proof (induction er lines rule: push_back.induct)
  case (1 er lines)
  show ?case
  proof (cases "er \<noteq> [] \<and> is_ignorable (last er)")
    case True
    then have "chars er = chars (butlast er) + length (last er)"
      by (metis append_butlast_last_id chars_simps(1,2,3) add.right_neutral)
    with "1.IH" [OF True] True show ?thesis
      by (subst push_back.simps) simp
  next
    case False
    then show ?thesis by (subst push_back.simps) auto
  qed
qed

lemma collect_block_chars: "chars (snd (collect_block lines)) \<le> chars lines"
proof -
  have "chars (takeWhile P lines) + chars (dropWhile P lines) = chars lines" for P
    by (metis chars_simps(3) takeWhile_dropWhile_id)
  with push_back_chars [of "takeWhile (\<lambda>l. \<not> startswith l ''$ '') lines"
      "dropWhile (\<lambda>l. \<not> startswith l ''$ '') lines"]
  show ?thesis by (simp add: collect_block_def)
qed

text \<open>
  The loop of \<open>run_test\<close> over the cursor \<open>lines\<close>. It returns what was written, the trace and
  whether the loop ran to the end (\<open>False\<close>: it returned early on a failed directive).
\<close>

function run_lines ::
    "'w tools \<Rightarrow> bool \<Rightarrow> bool \<Rightarrow> bool \<Rightarrow> string list \<Rightarrow> 'w \<Rightarrow>
     error + (string list \<times> directive list \<times> bool)" where
  "run_lines T pdns_needed stop_on_error auto_pdns_check [] w = Inr ([], [], True)"
| "run_lines T pdns_needed stop_on_error auto_pdns_check (line0 # lines0) w =
     (case read_heredoc line0 lines0 of
        Inl e \<Rightarrow> Inl e
      | Inr (line, cmd_input, cat_written, lines1) \<Rightarrow>
          if startswith line ''$ '' then
            (case collect_block lines1 of
               (expected_result, lines2) \<Rightarrow>
                 (case run_directive T pdns_needed auto_pdns_check line cmd_input expected_result
                         w of
                    Inl e \<Rightarrow> Inl e
                  | Inr (written, ok, entry, w') \<Rightarrow>
                      if stop_on_error \<and> \<not> ok
                      then Inr (line0 # cat_written @ written, [entry], False)
                      else (case run_lines T pdns_needed stop_on_error auto_pdns_check lines2 w' of
                              Inl e \<Rightarrow> Inl e
                            | Inr (out, log, completed) \<Rightarrow>
                                Inr (line0 # cat_written @ written @ out, entry # log,
                                     completed))))
          else (case run_lines T pdns_needed stop_on_error auto_pdns_check lines1 w of
                  Inl e \<Rightarrow> Inl e
                | Inr (out, log, completed) \<Rightarrow>
                    Inr (line0 # cat_written @ out, log, completed)))"
  by pat_completeness auto
termination
proof (relation "inv_image (less_than <*lex*> less_than)
    (\<lambda>(T, needed, stop, auto, lines, w). (chars lines, length lines))", goal_cases)
  case 1
  show ?case by (intro wf_inv_image wf_lex_prod wf_less_than)
next
  case (2 T needed stop auto line0 lines0 w x line y cmd_input z cat_written lines1 expected_result
      lines2 x2 written ya ok yb entry w')
  from read_heredoc_rest [of line0 lines0 line cmd_input cat_written lines1] 2
  have "chars lines1 \<le> chars lines0" "0 < length line0" by simp_all
  moreover from collect_block_chars [of lines1] 2 have "chars lines2 \<le> chars lines1"
    by (metis snd_conv)
  ultimately have "chars lines2 < length line0 + chars lines0" by linarith
  then show ?case by simp
next
  case (3 T needed stop auto line0 lines0 w x line y cmd_input z cat_written lines1)
  from read_heredoc_rest [of line0 lines0 line cmd_input cat_written lines1] 3
  have "chars lines1 \<le> chars lines0" "length lines1 \<le> length lines0" by simp_all
  then show ?case by auto
qed

text \<open>
  \<open>run_test\<close> from the point where the transcript has been read and the collaborators are
  set up. The first loop clears \<open>auto_pdns_check\<close> and finds out whether the listener is
  needed; the value returned at the end is whether \<open>diff\<close> finds the output file equal to the
  transcript.
\<close>

definition run_test ::
    "'w tools \<Rightarrow> string list \<Rightarrow> bool \<Rightarrow> bool \<Rightarrow> 'w \<Rightarrow>
     error + (string list \<times> directive list \<times> bool)" where
  "run_test T lines stop_on_error auto_pdns_check w =
     (let auto_pdns_check =
            (auto_pdns_check \<and>
             \<not> list_ex (\<lambda>line. contains line ''create zone-group'' \<or>
                               contains line ''create output'') lines);
          pdns_needed =
            (list_ex (\<lambda>line. contains line ''drill'' \<or> contains line ''dig'') lines \<or>
             auto_pdns_check)
      in case run_lines T pdns_needed stop_on_error auto_pdns_check lines w of
           Inl e \<Rightarrow> Inl e
         | Inr (out, log, completed) \<Rightarrow>
             Inr (out, log, completed \<and> concat out = concat lines))"

text \<open>
  What the idempotence property asks of a transcript and of a run. A line is proper when it
  ends in a newline and holds no other newline. A directive of the trace agrees when the
  actual output equals the expected block line for line; for a command line directive the
  expected rows must moreover be accepted by their own annotation and the side-channel check
  must not have failed, for a sorted comparison the lines must already be in sorted order.
\<close>

definition proper :: "string \<Rightarrow> bool" where
  "proper l = (l \<noteq> [] \<and> last l = nl \<and> nl \<notin> set (butlast l))"

definition self_accepted :: "string \<Rightarrow> string list \<Rightarrow> bool" where
  "self_accepted line expected_result =
     (case add_regex (expected_table_of line expected_result) line of
        Inl e \<Rightarrow> False
      | Inr expected_table \<Rightarrow>
          list_all2 match (expected_table_of line expected_result) expected_table)"

fun agrees :: "directive \<Rightarrow> bool" where
  "agrees (Cli line expected_result result good) =
     (splitlines True result = expected_result \<and> self_accepted line expected_result \<and> good)"
| "agrees (Shell line expected_result result) =
     (result = map strip_nl expected_result \<and>
      (is_pdns_query line \<longrightarrow> sort result = result \<and> sort expected_result = expected_result))"

text \<open>Every pattern line of a shell directive matches its own text.\<close>

fun self_matching :: "directive \<Rightarrow> bool" where
  "self_matching (Cli line expected_result result good) = True"
| "self_matching (Shell line expected_result result) =
     list_all (\<lambda>e. spec_line_ok (strip_nl e) (strip_nl e)) expected_result"

text \<open>The assignment that pairs each of the first \<open>n\<close> rows with the expected row of its index.\<close>

definition idpairs :: "nat \<Rightarrow> (nat \<times> nat) list" where
  "idpairs n = map (\<lambda>i. (i, i)) [0..<n]"

text \<open>
  Collaborators and transcripts for the concrete runs below. With \<open>cli_tools result\<close> the
  command line tool always prints \<open>result\<close> and a shell command prints nothing. With
  \<open>shell_tools printed\<close> every shell command prints the lines \<open>printed\<close>. \<open>ds_lines\<close> is a
  tab-separated listing of two \<open>DS\<close> records of one name (record, zone, ttl, type, value);
  the first has algorithm 5 and digest type 1, the second algorithm 8 and digest type 2.
\<close>

definition cli_tools :: "string \<Rightarrow> unit tools" where
  "cli_tools result =
     \<lparr>run_command = (\<lambda>line cmd_input w. (Inr result, w)),
      run_system_command = (\<lambda>cmd w. (Inr [], w)),
      setup_pdns_output = (\<lambda>w. (Inr (), w)),
      compare_dim_pdns_zones = (\<lambda>w. (Inr True, w))\<rparr>"

definition shell_tools :: "string list \<Rightarrow> unit tools" where
  "shell_tools printed =
     \<lparr>run_command = (\<lambda>line cmd_input w. (Inl ToolFailure, w)),
      run_system_command = (\<lambda>cmd w. (Inr printed, w)),
      setup_pdns_output = (\<lambda>w. (Inr (), w)),
      compare_dim_pdns_zones = (\<lambda>w. (Inr True, w))\<rparr>"

definition ds_lines :: "string list" where
  "ds_lines =
     [''sub'' @ CHR 0x09 # ''a.de'' @ CHR 0x09 # ''600'' @ CHR 0x09 # ''DS'' @ CHR 0x09 #
        ''111 5 1 AA\<newline>'',
      ''sub'' @ CHR 0x09 # ''a.de'' @ CHR 0x09 # ''600'' @ CHR 0x09 # ''DS'' @ CHR 0x09 #
        ''222 8 2 BB\<newline>'']"

definition demo_transcript :: "string list" where
  "demo_transcript =
     [''# t\<newline>'', ''$ touch f\<newline>'', ''# c\<newline>'', ''\<newline>'',
      ''$ ndcli show pool p\<newline>'', ''created: 2020-01-01\<newline>'']"

definition demo_trace :: "directive list" where
  "demo_trace =
     [Shell ''$ touch f'' [] [],
      Cli ''$ ndcli show pool p\<newline>'' [''created: 2020-01-01\<newline>'']
        ''created: 2020-01-01\<newline>'' True]"

section \<open>Properties of match_table\<close>

subsection \<open>Auxiliary facts\<close>

lemma match_iff:
  "match row info \<longleftrightarrow> length row = length info \<and> (\<forall>i<length row. match_cell (row ! i) (info ! i))"
proof -
  have "length row = length info \<Longrightarrow>
        match_cells row info = (\<forall>i<length row. match_cell (row ! i) (info ! i))"
  proof (induction row info rule: list_induct2)
    case Nil
    then show ?case by simp
  next
    case (Cons a as i "is")
    then show ?case by (auto simp: less_Suc_eq_0_disj)
  qed
  then show ?thesis by (auto simp: match_def)
qed

lemma find_expected_find:
  "find_expected m row j0 es =
     List.find (\<lambda>j. j \<notin> set (map snd m) \<and> match row (es ! (j - j0))) [j0..<j0 + length es]"
proof (induction es arbitrary: j0)
  case Nil
  then show ?case by simp
next
  case (Cons e es)
  have nth: "(e # es) ! (j - j0) = es ! (j - Suc j0)" if "Suc j0 \<le> j" for j
  proof -
    from that have "j - j0 = Suc (j - Suc j0)" by simp
    then show ?thesis by simp
  qed
  have "List.find (\<lambda>j. j \<notin> set (map snd m) \<and> match row ((e # es) ! (j - j0))) [Suc j0..<Suc j0 + length es]
      = List.find (\<lambda>j. j \<notin> set (map snd m) \<and> match row (es ! (j - Suc j0))) [Suc j0..<Suc j0 + length es]"
    by (rule find_cong) (simp_all add: nth del: upt_Suc)
  with Cons.IH [of "Suc j0"] show ?case
    by (simp add: upt_conv_Cons del: upt_Suc)
qed

lemma find_expected_Some:
  "find_expected m row j0 es = Some j \<Longrightarrow>
     j0 \<le> j \<and> j < j0 + length es \<and> j \<notin> set (map snd m) \<and> match row (es ! (j - j0))"
proof (induction es arbitrary: j0)
  case Nil
  then show ?case by simp
next
  case (Cons e es)
  show ?case
  proof (cases "j0 \<notin> set (map snd m) \<and> match row e")
    case True
    with Cons.prems show ?thesis by simp
  next
    case False
    with Cons.prems have "find_expected m row (Suc j0) es = Some j"
      by (cases "j0 \<in> set (map snd m)") simp_all
    from Cons.IH [OF this]
    have *: "Suc j0 \<le> j" "j < Suc j0 + length es" "j \<notin> set (map snd m)"
      "match row (es ! (j - Suc j0))" by simp_all
    from *(1) have "j - j0 = Suc (j - Suc j0)" by simp
    with * show ?thesis by simp
  qed
qed

lemma find_expected_None:
  "find_expected m row j0 es = None \<Longrightarrow> k < length es \<Longrightarrow>
     j0 + k \<in> set (map snd m) \<or> \<not> match row (es ! k)"
proof (induction es arbitrary: j0 k)
  case Nil
  then show ?case by simp
next
  case (Cons e es)
  show ?case
  proof (cases k)
    case 0
    with Cons.prems show ?thesis by (auto split: if_splits)
  next
    case (Suc k')
    from Cons.prems have "find_expected m row (Suc j0) es = None" by (auto split: if_splits)
    from Cons.IH [OF this, of k'] Cons.prems(2) Suc show ?thesis by simp
  qed
qed

lemma match_rows_set:
  "set (match_rows m no rows E) \<subseteq>
     set m \<union> {p. no \<le> fst p \<and> fst p < no + length rows \<and> snd p < length E}"
proof (induction rows arbitrary: m no)
  case Nil
  then show ?case by simp
next
  case (Cons row rows)
  show ?case
  proof (cases "find_expected m row 0 E")
    case None
    with Cons.IH [of m "Suc no"] show ?thesis by auto
  next
    case (Some j)
    from find_expected_Some [OF Some] have "j < length E" by simp
    with Some Cons.IH [of "m @ [(no, j)]" "Suc no"] show ?thesis by auto
  qed
qed

lemma match_rows_distinct_snd:
  "distinct (map snd m) \<Longrightarrow> distinct (map snd (match_rows m no rows E))"
proof (induction rows arbitrary: m no)
  case Nil
  then show ?case by simp
next
  case (Cons row rows)
  show ?case
  proof (cases "find_expected m row 0 E")
    case None
    with Cons show ?thesis by simp
  next
    case (Some j)
    from find_expected_Some [OF Some] Cons.prems
    have "distinct (map snd (m @ [(no, j)]))" by simp
    from Cons.IH [OF this] Some show ?thesis by simp
  qed
qed

lemma match_rows_distinct_fst:
  "distinct (map fst m) \<Longrightarrow> \<forall>p\<in>set m. fst p < no \<Longrightarrow>
   distinct (map fst (match_rows m no rows E))"
proof (induction rows arbitrary: m no)
  case Nil
  then show ?case by simp
next
  case (Cons row rows)
  show ?case
  proof (cases "find_expected m row 0 E")
    case None
    have "\<forall>p\<in>set m. fst p < Suc no" using Cons.prems(2) by auto
    from Cons.IH [OF Cons.prems(1) this] None show ?thesis by simp
  next
    case (Some j)
    have d: "distinct (map fst (m @ [(no, j)]))" using Cons.prems by auto
    have "\<forall>p\<in>set (m @ [(no, j)]). fst p < Suc no" using Cons.prems(2) by auto
    from Cons.IH [OF d this] Some show ?thesis by simp
  qed
qed

lemma match_rows_filter_old:
  "k \<le> no \<Longrightarrow> filter (\<lambda>p. fst p < k) (match_rows m no rows E) = filter (\<lambda>p. fst p < k) m"
proof (induction rows arbitrary: m no)
  case Nil
  then show ?case by simp
next
  case (Cons row rows)
  from Cons.prems have le: "k \<le> Suc no" by simp
  show ?case
  proof (cases "find_expected m row 0 E")
    case None
    with Cons.IH [OF le, of m] show ?thesis by simp
  next
    case (Some j)
    with Cons.IH [OF le, of "m @ [(no, j)]"] Cons.prems show ?thesis by simp
  qed
qed

lemma match_rows_map_of_old:
  "key < no \<Longrightarrow> map_of (match_rows m no rows E) key = map_of m key"
proof (induction rows arbitrary: m no)
  case Nil
  then show ?case by simp
next
  case (Cons row rows)
  from Cons.prems have lt: "key < Suc no" by simp
  show ?case
  proof (cases "find_expected m row 0 E")
    case None
    with Cons.IH [OF lt, of m] show ?thesis by simp
  next
    case (Some j)
    with Cons.IH [OF lt, of "m @ [(no, j)]"] Cons.prems show ?thesis
      by (auto simp: map_add_def split: option.splits)
  qed
qed

lemma match_rows_greedy:
  "\<forall>p\<in>set m. fst p < no \<Longrightarrow> k < length rows \<Longrightarrow>
   map_of (match_rows m no rows E) (no + k) =
     find_expected (filter (\<lambda>p. fst p < no + k) (match_rows m no rows E)) (rows ! k) 0 E"
proof (induction rows arbitrary: m no k)
  case Nil
  then show ?case by simp
next
  case (Cons row rows)
  define m' where "m' = (case find_expected m row 0 E of None \<Rightarrow> m | Some j \<Rightarrow> m @ [(no, j)])"
  have M: "match_rows m no (row # rows) E = match_rows m' (Suc no) rows E"
    by (simp add: m'_def split: option.splits)
  have keys': "\<forall>p\<in>set m'. fst p < Suc no"
    using Cons.prems(1) by (auto simp: m'_def split: option.splits)
  have fm: "filter (\<lambda>p. fst p < no) m = m"
    using Cons.prems(1) by (simp add: filter_id_conv)
  have nokey: "map_of m no = None"
    using Cons.prems(1) by (force simp: map_of_eq_None_iff)
  show ?case
  proof (cases k)
    case 0
    have "filter (\<lambda>p. fst p < no) (match_rows m' (Suc no) rows E) = filter (\<lambda>p. fst p < no) m'"
      by (rule match_rows_filter_old) simp
    also have "\<dots> = m"
      using fm by (simp add: m'_def split: option.splits)
    finally have f: "filter (\<lambda>p. fst p < no) (match_rows m' (Suc no) rows E) = m" .
    have "map_of (match_rows m' (Suc no) rows E) no = map_of m' no"
      by (rule match_rows_map_of_old) simp
    also have "\<dots> = find_expected m row 0 E"
      using nokey by (simp add: m'_def map_add_def split: option.splits)
    finally show ?thesis using 0 M f by simp
  next
    case (Suc k')
    with Cons.prems(2) have "k' < length rows" by simp
    from Cons.IH [OF keys' this] Suc M show ?thesis by simp
  qed
qed

lemma compose_ok:
  "length (filter (\<lambda>k. k \<in> set (map fst M)) [no..<no + length rows]) \<le> length em \<Longrightarrow>
   \<exists>out. compose M no rows em = Inr out \<and> length out = length rows \<and>
     (\<forall>i<length rows. out ! i =
        (if no + i \<in> set (map fst M)
         then em ! length (filter (\<lambda>k. k \<in> set (map fst M)) [no..<no + i])
         else rows ! i))"
proof (induction rows arbitrary: no em)
  case Nil
  then show ?case by simp
next
  case (Cons row rows)
  let ?K = "set (map fst M)"
  note upt_Suc [simp del]
  have upt: "[no..<no + length (row # rows)] = no # [Suc no..<Suc no + length rows]"
    by (simp add: upt_conv_Cons del: upt_Suc)
  have upti: "[no..<no + Suc i] = no # [Suc no..<Suc no + i]" for i
    by (simp add: upt_conv_Cons del: upt_Suc)
  show ?case
  proof (cases "no \<in> ?K")
    case True
    with Cons.prems upt obtain e es where em: "em = e # es"
      and le: "length (filter (\<lambda>k. k \<in> ?K) [Suc no..<Suc no + length rows]) \<le> length es"
      by (cases em) auto
    from Cons.IH [OF le] obtain out where
      out: "compose M (Suc no) rows es = Inr out" "length out = length rows"
      "\<forall>i<length rows. out ! i =
        (if Suc no + i \<in> ?K then es ! length (filter (\<lambda>k. k \<in> ?K) [Suc no..<Suc no + i])
         else rows ! i)" by blast
    have "compose M no (row # rows) em = Inr (e # out)"
      using True em out(1) by simp
    moreover have "\<forall>i<length (row # rows). (e # out) ! i =
        (if no + i \<in> ?K then em ! length (filter (\<lambda>k. k \<in> ?K) [no..<no + i])
         else (row # rows) ! i)"
    proof (intro allI impI)
      fix i assume "i < length (row # rows)"
      then show "(e # out) ! i =
        (if no + i \<in> ?K then em ! length (filter (\<lambda>k. k \<in> ?K) [no..<no + i])
         else (row # rows) ! i)"
      proof (cases i)
        case 0
        with True em show ?thesis by simp
      next
        case (Suc i')
        with \<open>i < length (row # rows)\<close> have "i' < length rows" by simp
        with out(3) Suc True em upti [of i'] show ?thesis by simp
      qed
    qed
    ultimately show ?thesis using out(2) by simp
  next
    case False
    with Cons.prems upt
    have le: "length (filter (\<lambda>k. k \<in> ?K) [Suc no..<Suc no + length rows]) \<le> length em"
      by simp
    from Cons.IH [OF le] obtain out where
      out: "compose M (Suc no) rows em = Inr out" "length out = length rows"
      "\<forall>i<length rows. out ! i =
        (if Suc no + i \<in> ?K then em ! length (filter (\<lambda>k. k \<in> ?K) [Suc no..<Suc no + i])
         else rows ! i)" by blast
    have "compose M no (row # rows) em = Inr (row # out)"
      using False out(1) by simp
    moreover have "\<forall>i<length (row # rows). (row # out) ! i =
        (if no + i \<in> ?K then em ! length (filter (\<lambda>k. k \<in> ?K) [no..<no + i])
         else (row # rows) ! i)"
    proof (intro allI impI)
      fix i assume "i < length (row # rows)"
      then show "(row # out) ! i =
        (if no + i \<in> ?K then em ! length (filter (\<lambda>k. k \<in> ?K) [no..<no + i])
         else (row # rows) ! i)"
      proof (cases i)
        case 0
        with False show ?thesis by simp
      next
        case (Suc i')
        with \<open>i < length (row # rows)\<close> have "i' < length rows" by simp
        with out(3) Suc False upti [of i'] show ?thesis by simp
      qed
    qed
    ultimately show ?thesis using out(2) by simp
  qed
qed

lemma pick_ok:
  "\<forall>i\<in>set is. i < length ER \<Longrightarrow> pick ER is = Inr (map ((!) ER) is)"
  by (induction "is") simp_all

lemma spec_row_ok_match: "spec_row_ok row info = match row info"
proof -
  have c: "spec_cell_ok a c = match_cell a c" for a c
    by (cases c) (auto simp: spec_cell_ok_def)
  show ?thesis
    unfolding spec_row_ok_def match_iff list_all2_conv_all_nth c by simp
qed

lemma find_expected_spec:
  "find_expected m row 0 E = spec_first_match (set (map snd m)) row E"
  by (simp add: find_expected_find spec_first_match_def spec_row_ok_match)

lemma match_rows_sound:
  "(no', j) \<in> set (match_rows m no rows E) \<Longrightarrow>
   (no', j) \<in> set m \<or>
   (no \<le> no' \<and> no' < no + length rows \<and> j < length E \<and> match (rows ! (no' - no)) (E ! j))"
proof (induction rows arbitrary: m no)
  case Nil
  then show ?case by simp
next
  case (Cons row rows)
  show ?case
  proof (cases "find_expected m row 0 E")
    case None
    with Cons.prems have "(no', j) \<in> set (match_rows m (Suc no) rows E)" by simp
    from Cons.IH [OF this] show ?thesis
    proof
      assume "(no', j) \<in> set m" then show ?thesis by simp
    next
      assume a: "Suc no \<le> no' \<and> no' < Suc no + length rows \<and> j < length E \<and>
        match (rows ! (no' - Suc no)) (E ! j)"
      then have "no' - no = Suc (no' - Suc no)" by linarith
      with a show ?thesis by simp
    qed
  next
    case (Some j')
    with Cons.prems have "(no', j) \<in> set (match_rows (m @ [(no, j')]) (Suc no) rows E)" by simp
    from Cons.IH [OF this] show ?thesis
    proof
      assume "(no', j) \<in> set (m @ [(no, j')])"
      with find_expected_Some [OF Some] show ?thesis by auto
    next
      assume a: "Suc no \<le> no' \<and> no' < Suc no + length rows \<and> j < length E \<and>
        match (rows ! (no' - Suc no)) (E ! j)"
      then have "no' - no = Suc (no' - Suc no)" by linarith
      with a show ?thesis by simp
    qed
  qed
qed

lemma rank_le:
  "length (filter (\<lambda>k. k \<in> set (map fst M)) [0..<n]) \<le> length M"
proof -
  have "length (filter (\<lambda>k. k \<in> set (map fst M)) [0..<n]) =
        card ({k. k \<in> set (map fst M)} \<inter> set [0..<n])"
    by (rule distinct_length_filter) simp
  also have "\<dots> \<le> card (set (map fst M))"
    by (rule card_mono) auto
  also have "\<dots> \<le> length (map fst M)" by (rule card_length)
  finally show ?thesis by simp
qed

lemma rank_lt:
  assumes "i \<in> set (map fst M)"
  shows "length (filter (\<lambda>k. k \<in> set (map fst M)) [0..<i]) < length M"
proof -
  have "length (filter (\<lambda>k. k \<in> set (map fst M)) [0..<Suc i]) \<le> length M"
    by (rule rank_le)
  with assms show ?thesis by simp
qed

text \<open>The result of \<open>match_table\<close>, position by position.\<close>

lemma match_table_out:
  assumes "length E \<le> length ER"
  shows "\<exists>out. match_table A E AR ER = Inr out \<and> length out = length AR \<and>
     (\<forall>i<length AR. out ! i =
        (if i \<in> set (map fst (match_rows [] 0 A E))
         then ER ! (sort (map snd (match_rows [] 0 A E)) !
                length (filter (\<lambda>k. k \<in> set (map fst (match_rows [] 0 A E))) [0..<i]))
         else AR ! i))"
proof -
  define M where "M = match_rows [] 0 A E"
  define em where "em = map ((!) ER) (sort (map snd M))"
  have "\<forall>i\<in>set (sort (map snd M)). i < length ER"
    using match_rows_set [of "[]" 0 A E] assms by (auto simp: M_def)
  then have p: "pick ER (sort (map snd M)) = Inr em"
    unfolding em_def by (rule pick_ok)
  have "length (filter (\<lambda>k. k \<in> set (map fst M)) [0..<0 + length AR]) \<le> length em"
    using rank_le [of M "length AR"] by (simp add: em_def)
  from compose_ok [OF this] obtain out where
    out: "compose M 0 AR em = Inr out" "length out = length AR"
    "\<forall>i<length AR. out ! i =
        (if 0 + i \<in> set (map fst M)
         then em ! length (filter (\<lambda>k. k \<in> set (map fst M)) [0..<0 + i])
         else AR ! i)" by blast
  have "match_table A E AR ER = Inr out"
    using p out(1) by (simp add: match_table_def M_def [symmetric])
  moreover have "out ! i =
        (if i \<in> set (map fst M)
         then ER ! (sort (map snd M) ! length (filter (\<lambda>k. k \<in> set (map fst M)) [0..<i]))
         else AR ! i)" if "i < length AR" for i
  proof (cases "i \<in> set (map fst M)")
    case True
    from rank_lt [OF True]
    have "length (filter (\<lambda>k. k \<in> set (map fst M)) [0..<i]) < length (sort (map snd M))"
      by simp
    then show ?thesis using out(3) that True by (simp add: em_def)
  next
    case False
    then show ?thesis using out(3) that by simp
  qed
  ultimately show ?thesis using out(2) unfolding M_def by blast
qed

lemma map_of_fst_set: "map_of M no \<noteq> None \<longleftrightarrow> no \<in> set (map fst M)"
  by (simp add: map_of_eq_None_iff)

lemma filter_upt_rank:
  "k < length (filter P [0..<n]) \<Longrightarrow>
     length (filter P [0..<filter P [0..<n] ! k]) = k \<and> P (filter P [0..<n] ! k) \<and>
     filter P [0..<n] ! k < n"
proof (induction n)
  case 0
  then show ?case by simp
next
  case (Suc n)
  show ?case
  proof (cases "k < length (filter P [0..<n])")
    case True
    from Suc.IH [OF True] True show ?thesis by (simp add: nth_append)
  next
    case False
    with Suc.prems have "P n" "k = length (filter P [0..<n])"
      by (auto split: if_splits)
    then show ?thesis by (simp add: nth_append)
  qed
qed

lemma all_matched_sorted:
  assumes all: "\<forall>no<n. no \<in> set (map fst M)"
    and keys: "\<forall>p\<in>set M. fst p < n \<and> snd p < n"
    and df: "distinct (map fst M)" and ds: "distinct (map snd M)"
  shows "sort (map snd M) = [0..<n]"
proof -
  have "set (map fst M) = {0..<n}" using all keys by auto
  then have "card (set (map fst M)) = n" by simp
  with distinct_card [OF df] have len: "length M = n" by simp
  have sub: "set (map snd M) \<subseteq> {0..<n}" using keys by auto
  have "card (set (map snd M)) = n" using distinct_card [OF ds] len by simp
  with sub have "set (map snd M) = {0..<n}"
    by (simp add: card_subset_eq)
  then have "set (sort (map snd M)) = set [0..<n]" by simp
  moreover have "distinct (sort (map snd M))" using ds by simp
  ultimately show ?thesis
    by (intro sorted_distinct_set_unique) simp_all
qed

lemma length_table_from_lines: "length (table_from_lines ls cmd) \<le> length ls"
proof -
  have a: "length (filter P ls) \<le> length ls" for P :: "string \<Rightarrow> bool" by simp
  have b: "length (filter P (dropWhile Q ls)) \<le> length ls" for P Q :: "string \<Rightarrow> bool"
    by (metis length_filter_le length_dropWhile_le order_trans)
  show ?thesis
  proof (cases "dropWhile is_ignorable ls")
    case Nil
    show ?thesis unfolding table_from_lines_def Nil using a by simp
  next
    case (Cons line0 rest)
    from b [of "\<lambda>line. \<not> is_ignorable line" is_ignorable]
    have "length (filter (\<lambda>line. \<not> is_ignorable line) (line0 # rest)) \<le> length ls"
      unfolding Cons .
    then show ?thesis unfolding table_from_lines_def Cons using a by (simp add: Let_def)
  qed
qed

lemma length_expected_table_of: "length (expected_table_of line expected) \<le> length expected"
  using length_table_from_lines [of "map strip_nl expected" line]
  by (simp add: expected_table_of_def)

lemma for_rows_length: "for_rows f table = Inr table' \<Longrightarrow> length table' = length table"
  by (induction table arbitrary: table')
     (auto simp: bind_def split: sum.splits)

lemma when_cmd_length:
  "(\<And>t t'. f t = Inr t' \<Longrightarrow> length t' = length t) \<Longrightarrow>
   when_cmd b f table = Inr table' \<Longrightarrow> length table' = length table"
  by (auto simp: when_cmd_def split: if_splits)

lemma ds_rows_length: "ds_rows table = Inr table' \<Longrightarrow> length table' = length table"
  by (cases table) (auto simp: ds_rows_def bind_def split: sum.splits dest: for_rows_length)

lemma add_regex_length:
  assumes "add_regex table cmd = Inr table'"
  shows "length table' = length table"
proof -
  let ?t = "map (map Lit) table"
  show ?thesis
  proof (cases "generates_map cmd")
    case True
    with assms for_rows_length [of map_row ?t table'] show ?thesis
      by (simp add: add_regex_def)
  next
    case nm: False
    show ?thesis
    proof (cases "generates_table cmd")
      case True
      from assms nm True obtain t1 t2 t3 t4 where
        s: "when_cmd (re_search (re_of ''list zone .* keys'') cmd) (for_rows keys_row1) ?t = Inr t1"
        "when_cmd (re_search (re_of ''list zone .* dnskeys'') cmd) (for_rows dnskeys_row) t1 = Inr t2"
        "when_cmd (re_search (re_of ''list zone .* keys'') cmd) (for_rows keys_row2) t2 = Inr t3"
        "when_cmd (re_search (re_of ''list zone .* ds'') cmd) ds_rows t3 = Inr t4"
        and last: "(if contains cmd ''dcli list zone'' \<or> contains cmd ''dcli dump zone'' \<or>
              contains cmd ''dcli list rrs''
           then for_rows rr_row t4
           else if contains cmd ''dcli history'' then for_rows history_row t4
           else Inr t4) = Inr table'"
        by (auto simp: add_regex_def bind_def Let_def split: sum.splits)
      have "length t1 = length ?t"
        by (rule when_cmd_length [OF _ s(1)]) (rule for_rows_length)
      moreover have "length t2 = length t1"
        by (rule when_cmd_length [OF _ s(2)]) (rule for_rows_length)
      moreover have "length t3 = length t2"
        by (rule when_cmd_length [OF _ s(3)]) (rule for_rows_length)
      moreover have "length t4 = length t3"
        by (rule when_cmd_length [OF _ s(4)]) (rule ds_rows_length)
      moreover have "length table' = length t4"
        using last by (auto split: if_splits dest: for_rows_length)
      ultimately show ?thesis by simp
    next
      case False
      with assms nm show ?thesis
        by (auto simp: add_regex_def check_regexes_def Let_def split: if_splits
            dest: for_rows_length)
    qed
  qed
qed

text \<open>At the call in \<open>run_test\<close>, \<open>expected_raw\<close> has a line for every expected row.\<close>

lemma run_test_call_has_raw_lines:
  assumes "add_regex (expected_table_of line expected_result) line = Inr expected_table"
  shows "length expected_table \<le> length expected_result"
  using add_regex_length [OF assms] length_expected_table_of [of line expected_result] by simp

subsection \<open>The greedy assignment\<close>

text \<open>
  Claim C2. The dictionary \<open>matched\<close> that \<open>match_table\<close> builds is the greedy assignment of
  the specification: the actual row at index \<open>no\<close> is assigned the first expected row, in
  declaration order, that no earlier actual row was assigned and that has the length of the
  actual row and accepts each of its cells (an equal literal, or a pattern matching at the
  start of the cell); it is left out when there is no such row. A pair, once entered, is never
  changed, no actual row and no expected row occurs in two pairs, and so the map from
  actual-row index to expected-row index is injective.
\<close>

theorem match_table_greedy_injective:
  "let matched = match_rows [] 0 actual_table expected_table in
     (\<forall>no<length actual_table.
        map_of matched no =
          spec_first_match (set (map snd (filter (\<lambda>p. fst p < no) matched)))
            (actual_table ! no) expected_table) \<and>
     (\<forall>p\<in>set matched. fst p < length actual_table \<and> snd p < length expected_table) \<and>
     distinct (map fst matched) \<and> distinct (map snd matched) \<and>
     inj_on (map_of matched) (dom (map_of matched))"
proof -
  define M where "M = match_rows [] 0 actual_table expected_table"
  have g: "map_of M no =
          spec_first_match (set (map snd (filter (\<lambda>p. fst p < no) M)))
            (actual_table ! no) expected_table" if "no < length actual_table" for no
    using match_rows_greedy [of "[]" 0 no actual_table expected_table] that
    by (simp add: M_def find_expected_spec)
  have r: "\<forall>p\<in>set M. fst p < length actual_table \<and> snd p < length expected_table"
    using match_rows_set [of "[]" 0 actual_table expected_table] by (auto simp: M_def)
  have df: "distinct (map fst M)"
    unfolding M_def by (rule match_rows_distinct_fst) simp_all
  have ds: "distinct (map snd M)"
    unfolding M_def by (rule match_rows_distinct_snd) simp
  have "inj_on (map_of M) (dom (map_of M))"
  proof (rule inj_onI)
    fix a b assume a: "a \<in> dom (map_of M)" and b: "b \<in> dom (map_of M)"
      and eq: "map_of M a = map_of M b"
    from a obtain j where ja: "map_of M a = Some j" by auto
    with eq have jb: "map_of M b = Some j" by simp
    from ja jb have "(a, j) \<in> set M" "(b, j) \<in> set M" by (auto dest: map_of_SomeD)
    with ds show "a = b"
      by (metis distinct_map eq_key_imp_eq_value inj_on_def fst_conv snd_conv)
  qed
  with g r df ds show ?thesis unfolding M_def Let_def by blast
qed

theorem match_table_greedy_injective_witness:
  "(1::nat) < length [[''x''], [''x''], [''y'']] \<and>
   match_rows [] 0 [[''x''], [''x''], [''y'']] [[Pat (Star Dot)], [Lit ''x'']] = [(0, 0), (1, 1)] \<and>
   map_of (match_rows [] 0 [[''x''], [''x''], [''y'']] [[Pat (Star Dot)], [Lit ''x'']]) 1 =
     spec_first_match
       (set (map snd (filter (\<lambda>p. fst p < 1)
          (match_rows [] 0 [[''x''], [''x''], [''y'']] [[Pat (Star Dot)], [Lit ''x'']]))))
       ([[''x''], [''x''], [''y'']] ! 1) [[Pat (Star Dot)], [Lit ''x'']] \<and>
   spec_first_match {0} [''x''] [[Pat (Star Dot)], [Lit ''x'']] = Some 1"
  using match_table_greedy_injective [of "[[''x''], [''x''], [''y'']]" "[[Pat (Star Dot)], [Lit ''x'']]"]
  by (simp add: Let_def match_def re_match_def spec_first_match_def spec_row_ok_def
      spec_cell_ok_def tok_def seq_def alt_def nl_def)

subsection \<open>The composed output\<close>

text \<open>
  Claim C3, as stated, fails: the output has one line per line of \<open>actual_raw\<close>, not per row
  of the actual table, and the text substituted for a matched row is written at the row's
  index in the table. For the output \<open># c\<close>, \<open>x\<close> of a listing command the extractor drops
  the comment, the only row has index 0 but was read from line 1, and the expected text
  replaces the comment at line 0.
\<close>

theorem match_table_output_lines_counterexample:
  "match_table [[''x'']] [[Lit ''x'']] [''# c\<newline>'', ''x\<newline>''] [''x\<newline>'']
     = Inr [''x\<newline>'', ''x\<newline>'']"
  by (simp add: match_table_def match_def)

text \<open>
  Claim C3, amended. Whenever \<open>expected_raw\<close> has a line for every expected row,
  \<open>match_table\<close> returns one line per line of \<open>actual_raw\<close>. When moreover the actual rows
  and the actual raw lines correspond index by index, each position of a matched row holds
  an expected raw text (the texts of the matched expected rows are handed out in ascending
  order of their indices) and each position of an unmatched row holds the actual raw text.
\<close>

theorem match_table_output_lines:
  assumes "length expected_table \<le> length expected_raw"
  shows "\<exists>out. match_table actual_table expected_table actual_raw expected_raw = Inr out \<and>
     length out = length actual_raw \<and>
     (length actual_raw = length actual_table \<longrightarrow>
        (\<forall>no<length actual_table. out ! no =
           (case map_of (match_rows [] 0 actual_table expected_table) no of
              None \<Rightarrow> actual_raw ! no
            | Some expected_no \<Rightarrow>
                expected_raw !
                  (sort (map snd (match_rows [] 0 actual_table expected_table)) !
                     length (filter (\<lambda>k. k \<in> fst ` set (match_rows [] 0 actual_table expected_table))
                               [0..<no])))))"
proof -
  define M where "M = match_rows [] 0 actual_table expected_table"
  from match_table_out [OF assms, of actual_table actual_raw] obtain out where
    out: "match_table actual_table expected_table actual_raw expected_raw = Inr out"
    "length out = length actual_raw"
    "\<forall>i<length actual_raw. out ! i =
        (if i \<in> set (map fst M)
         then expected_raw ! (sort (map snd M) !
                length (filter (\<lambda>k. k \<in> set (map fst M)) [0..<i]))
         else actual_raw ! i)"
    unfolding M_def by blast
  have "out ! no =
           (case map_of M no of
              None \<Rightarrow> actual_raw ! no
            | Some expected_no \<Rightarrow>
                expected_raw !
                  (sort (map snd M) ! length (filter (\<lambda>k. k \<in> fst ` set M) [0..<no])))"
    if "no < length actual_raw" for no
  proof (cases "map_of M no")
    case None
    then have "no \<notin> set (map fst M)" by (simp add: map_of_eq_None_iff)
    with out(3) that None show ?thesis by simp
  next
    case (Some j)
    then have "no \<in> set (map fst M)" using map_of_fst_set [of M no] by simp
    with out(3) that Some show ?thesis by simp
  qed
  with out(1,2) show ?thesis unfolding M_def by auto
qed

theorem match_table_output_lines_witness:
  "length [[Lit ''a''], [Lit ''b'']] \<le> length [''a\<newline>'', ''b\<newline>''] \<and>
   length [''b\<newline>'', ''a\<newline>'', ''c\<newline>''] = length [[''b''], [''a''], [''c'']] \<and>
   match_table [[''b''], [''a''], [''c'']] [[Lit ''a''], [Lit ''b'']]
     [''b\<newline>'', ''a\<newline>'', ''c\<newline>''] [''a\<newline>'', ''b\<newline>'']
     = Inr [''a\<newline>'', ''b\<newline>'', ''c\<newline>'']"
  using match_table_output_lines [of "[[Lit ''a''], [Lit ''b'']]" "[''a\<newline>'', ''b\<newline>'']"
      "[[''b''], [''a''], [''c'']]" "[''b\<newline>'', ''a\<newline>'', ''c\<newline>'']"]
  by (simp add: match_table_def match_def)

text \<open>
  Claim C9. For all tables, \<open>match_table\<close> returns an output and raises nothing, provided
  \<open>expected_raw\<close> has a line for every expected row. A row that no expected row accepts
  stays unmatched and its actual raw text is emitted; when every actual row differs in length
  from every expected row, the output is \<open>actual_raw\<close>. The call that \<open>run_test\<close> makes meets
  the condition, whatever the command printed and whatever the expected block holds, so it
  always returns an output.
\<close>

theorem match_table_total:
  "(length expected_table \<le> length expected_raw \<longrightarrow>
     (\<exists>out. match_table actual_table expected_table actual_raw expected_raw = Inr out \<and>
        length out = length actual_raw \<and>
        (\<forall>no<length actual_raw.
           (no < length actual_table \<longrightarrow>
              (\<forall>info\<in>set expected_table. \<not> match (actual_table ! no) info))
           \<longrightarrow> out ! no = actual_raw ! no) \<and>
        ((\<forall>row\<in>set actual_table. \<forall>info\<in>set expected_table. length row \<noteq> length info)
           \<longrightarrow> out = actual_raw))) \<and>
   (add_regex (expected_table_of line expected_result) line = Inr annotated \<longrightarrow>
     (\<exists>out. match_table (actual_table_of line result) annotated
              (splitlines True result) expected_result = Inr out \<and>
            length out = length (splitlines True result)))"
proof -
  have first: "\<exists>out. match_table actual_table expected_table actual_raw expected_raw = Inr out \<and>
        length out = length actual_raw \<and>
        (\<forall>no<length actual_raw.
           (no < length actual_table \<longrightarrow>
              (\<forall>info\<in>set expected_table. \<not> match (actual_table ! no) info))
           \<longrightarrow> out ! no = actual_raw ! no) \<and>
        ((\<forall>row\<in>set actual_table. \<forall>info\<in>set expected_table. length row \<noteq> length info)
           \<longrightarrow> out = actual_raw)"
    if le: "length expected_table \<le> length expected_raw"
  proof -
    define M where "M = match_rows [] 0 actual_table expected_table"
    from match_table_out [OF le, of actual_table actual_raw] obtain out where
      out: "match_table actual_table expected_table actual_raw expected_raw = Inr out"
      "length out = length actual_raw"
      "\<forall>i<length actual_raw. out ! i =
          (if i \<in> set (map fst M)
           then expected_raw ! (sort (map snd M) !
                  length (filter (\<lambda>k. k \<in> set (map fst M)) [0..<i]))
           else actual_raw ! i)"
      unfolding M_def by blast
    have key: "no < length actual_table \<and> (\<exists>info\<in>set expected_table. match (actual_table ! no) info)"
      if "no \<in> set (map fst M)" for no
    proof -
      from that obtain j where "(no, j) \<in> set M" by auto
      from match_rows_sound [OF this [unfolded M_def]]
      have "no < length actual_table" "j < length expected_table"
        "match (actual_table ! no) (expected_table ! j)" by simp_all
      then show ?thesis by (auto intro: bexI [of _ "expected_table ! j"])
    qed
    have un: "out ! no = actual_raw ! no"
      if "no < length actual_raw"
        "no < length actual_table \<longrightarrow> (\<forall>info\<in>set expected_table. \<not> match (actual_table ! no) info)"
      for no
    proof -
      from that(2) key [of no] have "no \<notin> set (map fst M)" by blast
      with out(3) that(1) show ?thesis by simp
    qed
    have "out = actual_raw"
      if len: "\<forall>row\<in>set actual_table. \<forall>info\<in>set expected_table. length row \<noteq> length info"
    proof (rule nth_equalityI)
      show "length out = length actual_raw" by (rule out(2))
    next
      fix i assume "i < length out"
      then have i: "i < length actual_raw" using out(2) by simp
      have "i < length actual_table \<longrightarrow> (\<forall>info\<in>set expected_table. \<not> match (actual_table ! i) info)"
        using len by (auto simp: match_def)
      from un [OF i this] show "out ! i = actual_raw ! i" .
    qed
    with out(1,2) un show ?thesis by blast
  qed
  have second: "\<exists>out. match_table (actual_table_of line result) annotated
              (splitlines True result) expected_result = Inr out \<and>
            length out = length (splitlines True result)"
    if "add_regex (expected_table_of line expected_result) line = Inr annotated"
    using match_table_out [OF run_test_call_has_raw_lines [OF that]] by blast
  from first second show ?thesis by blast
qed

theorem match_table_total_witness:
  "length [[Lit ''a'']] \<le> length [''a\<newline>''] \<and>
   length [''a'', ''b''] \<noteq> length [Lit ''a''] \<and>
   match_table [[''a'', ''b'']] [[Lit ''a'']] [''a b\<newline>''] [''a\<newline>'']
     = Inr [''a b\<newline>'']"
  using match_table_total [of "[[Lit ''a'']]" "[''a\<newline>'']" "[[''a'', ''b'']]" "[''a b\<newline>'']"]
  by (simp add: match_table_def match_def)

text \<open>
  Claim C10. The \<open>k\<close>-th matched position of the output, in the order of the actual lines,
  holds the raw text of the \<open>k\<close>-th smallest matched expected-row index. When every actual
  row is matched and the two tables and their raw lines all have the same size, the output
  is \<open>expected_raw\<close>.
\<close>

theorem match_table_ascending_order:
  assumes "length expected_table \<le> length expected_raw"
  shows "\<exists>out. match_table actual_table expected_table actual_raw expected_raw = Inr out \<and>
     (let matched = match_rows [] 0 actual_table expected_table;
          positions = filter (\<lambda>no. no \<in> fst ` set matched) [0..<length actual_raw]
      in (\<forall>k<length positions. out ! (positions ! k) = expected_raw ! (sort (map snd matched) ! k)) \<and>
         (length actual_raw = length actual_table \<and> length expected_raw = length expected_table \<and>
          length expected_table = length actual_table \<and>
          (\<forall>no<length actual_table. no \<in> fst ` set matched) \<longrightarrow> out = expected_raw))"
proof -
  define M where "M = match_rows [] 0 actual_table expected_table"
  define pos where "pos = filter (\<lambda>no. no \<in> fst ` set M) [0..<length actual_raw]"
  from match_table_out [OF assms, of actual_table actual_raw] obtain out where
    out: "match_table actual_table expected_table actual_raw expected_raw = Inr out"
    "length out = length actual_raw"
    "\<forall>i<length actual_raw. out ! i =
        (if i \<in> set (map fst M)
         then expected_raw ! (sort (map snd M) !
                length (filter (\<lambda>k. k \<in> set (map fst M)) [0..<i]))
         else actual_raw ! i)"
    unfolding M_def by blast
  have kth: "out ! (pos ! k) = expected_raw ! (sort (map snd M) ! k)" if "k < length pos" for k
  proof -
    from filter_upt_rank [of k "\<lambda>no. no \<in> fst ` set M" "length actual_raw"] that
    have "length (filter (\<lambda>no. no \<in> fst ` set M) [0..<pos ! k]) = k"
      "pos ! k \<in> fst ` set M" "pos ! k < length actual_raw"
      by (simp_all add: pos_def)
    with out(3) show ?thesis by simp
  qed
  have all: "out = expected_raw"
    if h: "length actual_raw = length actual_table \<and> length expected_raw = length expected_table \<and>
          length expected_table = length actual_table \<and>
          (\<forall>no<length actual_table. no \<in> fst ` set M)"
  proof -
    let ?n = "length actual_table"
    have keys: "\<forall>p\<in>set M. fst p < ?n \<and> snd p < ?n"
      using match_rows_set [of "[]" 0 actual_table expected_table] h by (auto simp: M_def)
    have df: "distinct (map fst M)"
      unfolding M_def by (rule match_rows_distinct_fst) simp_all
    have ds: "distinct (map snd M)"
      unfolding M_def by (rule match_rows_distinct_snd) simp
    have srt: "sort (map snd M) = [0..<?n]"
      by (rule all_matched_sorted [OF _ keys df ds]) (use h in simp)
    show ?thesis
    proof (rule nth_equalityI)
      show "length out = length expected_raw" using out(2) h by simp
    next
      fix i assume "i < length out"
      then have i: "i < ?n" using out(2) h by simp
      have "filter (\<lambda>k. k \<in> set (map fst M)) [0..<i] = [0..<i]"
        using h i by (simp add: filter_id_conv)
      with out(3) i h srt show "out ! i = expected_raw ! i" by simp
    qed
  qed
  from out(1) kth all show ?thesis
    unfolding Let_def M_def pos_def by blast
qed

theorem match_table_ascending_order_witness:
  "length [[Lit ''a''], [Lit ''b'']] \<le> length [''a\<newline>'', ''b\<newline>''] \<and>
   match_rows [] 0 [[''b''], [''a'']] [[Lit ''a''], [Lit ''b'']] = [(0, 1), (1, 0)] \<and>
   match_table [[''b''], [''a'']] [[Lit ''a''], [Lit ''b'']]
     [''b\<newline>'', ''a\<newline>''] [''a\<newline>'', ''b\<newline>'']
     = Inr [''a\<newline>'', ''b\<newline>''] \<and>
   [''a\<newline>'', ''b\<newline>''] ! 0 \<noteq> [''a\<newline>'', ''b\<newline>''] ! 1"
  using match_table_ascending_order [of "[[Lit ''a''], [Lit ''b'']]" "[''a\<newline>'', ''b\<newline>'']"
      "[[''b''], [''a'']]" "[''b\<newline>'', ''a\<newline>'']"]
  by (simp add: match_table_def match_def)

text \<open>
  Claim C4. \<open>match_table\<close> matches both rows of \<open>[["b"], ["a"]]\<close> against
  \<open>[["a"], ["b"]]\<close> and returns the expected raw lines, while \<open>process_command\<close> on the same
  two sequences of lines, without sorting, returns \<open>passed = False\<close>.
\<close>

theorem permutation_tolerance:
  "match_rows [] 0 [[''b''], [''a'']] [[Lit ''a''], [Lit ''b'']] = [(0, 1), (1, 0)] \<and>
   match_table [[''b''], [''a'']] [[Lit ''a''], [Lit ''b'']] [''b'', ''a''] [''a'', ''b'']
     = Inr [''a'', ''b''] \<and>
   process_command [''b'', ''a''] [''a'', ''b''] False
     = Inr ([''b\<newline>'', ''a\<newline>''], False)"
  by (simp add: match_table_def match_def process_command_def strip_nl_def strip_by_def
      endswith_def nl_def)

section \<open>Properties of process_command\<close>

lemma zip_longest_length: "length (zip_longest A E) = max (length A) (length E)"
  by (induction A E rule: zip_longest.induct) simp_all

lemma zip_longest_nth:
  "i < max (length A) (length E) \<Longrightarrow> zip_longest A E ! i = (pad A i, pad E i)"
proof (induction A E arbitrary: i rule: zip_longest.induct)
  case 1
  then show ?case by simp
next
  case (2 a as)
  then show ?case by (cases i) (simp_all add: pad_def)
next
  case (3 e es)
  then show ?case by (cases i) (simp_all add: pad_def)
next
  case (4 a as e es)
  then show ?case by (cases i) (simp_all add: pad_def)
qed

lemma compare_lines_spec:
  "compare_lines p0 zs = Inr (out, p) \<Longrightarrow>
     length out = length zs \<and>
     (\<forall>i<length zs. out ! i = spec_line_out (fst (zs ! i)) (strip_nl (snd (zs ! i)))) \<and>
     (p \<longleftrightarrow> p0 \<and> (\<forall>i<length zs. spec_line_ok (fst (zs ! i)) (strip_nl (snd (zs ! i)))))"
proof (induction zs arbitrary: p0 out p)
  case Nil
  then show ?case by simp
next
  case (Cons z zs)
  obtain a e0 where z: "z = (a, e0)" by (cases z)
  define e where "e = strip_nl e0"
  define p1 where "p1 = (p0 \<and> spec_line_ok a e)"
  from Cons.prems obtain out' where
    rec: "compare_lines p1 zs = Inr (out', p)" and out: "out = spec_line_out a e # out'"
    unfolding z p1_def e_def
    by (auto simp: Let_def spec_line_ok_def spec_line_out_def split: if_splits sum.splits)
  from Cons.IH [OF rec] have
    IH: "length out' = length zs"
    "\<forall>i<length zs. out' ! i = spec_line_out (fst (zs ! i)) (strip_nl (snd (zs ! i)))"
    "p \<longleftrightarrow> p1 \<and> (\<forall>i<length zs. spec_line_ok (fst (zs ! i)) (strip_nl (snd (zs ! i))))"
    by simp_all
  have "\<forall>i<length (z # zs). out ! i = spec_line_out (fst ((z # zs) ! i)) (strip_nl (snd ((z # zs) ! i)))"
    using IH(2) by (auto simp: out z e_def nth_Cons split: nat.splits)
  moreover have "p \<longleftrightarrow> p0 \<and> (\<forall>i<length (z # zs). spec_line_ok (fst ((z # zs) ! i)) (strip_nl (snd ((z # zs) ! i))))"
    unfolding IH(3) p1_def z e_def
    by (auto simp: nth_Cons less_Suc_eq_0_disj split: nat.splits)
  ultimately show ?case using IH(1) out by simp
qed

text \<open>
  Claim C7. Whenever \<open>process_command\<close> returns, it has written one line per pair of the
  two sequences (sorted first when \<open>sort_before\<close> is set, the shorter one padded with empty
  strings). For an expected line that, without its newline, ends in \<open>" re"\<close>, the rest is
  compiled and matched at the start of the actual line: on a match the expected text is
  written, otherwise the actual line is written and the result is \<open>passed = False\<close>. Expected
  \<open>"^foo.* re"\<close> against \<open>"foobar"\<close> passes and writes the pattern line, expected
  \<open>"bar re"\<close> against \<open>"baz"\<close> fails and writes \<open>"baz"\<close>.
\<close>

theorem regex_suffix_convention:
  "(process_command actual_output expected_output sort_before = Inr (out, passed) \<longrightarrow>
      (let actual = (if sort_before then sort actual_output else actual_output);
           expected = (if sort_before then sort expected_output else expected_output);
           n = max (length actual) (length expected)
       in length out = n \<and>
          (\<forall>i<n. out ! i = spec_line_out (pad actual i) (strip_nl (pad expected i))) \<and>
          (passed \<longleftrightarrow> (\<forall>i<n. spec_line_ok (pad actual i) (strip_nl (pad expected i)))))) \<and>
   process_command [''foobar''] [''^foo.* re''] False = Inr ([''^foo.* re\<newline>''], True) \<and>
   process_command [''baz''] [''bar re''] False = Inr ([''baz\<newline>''], False)"
proof -
  have gen: "length out = max (length A) (length E) \<and>
          (\<forall>i<max (length A) (length E). out ! i = spec_line_out (pad A i) (strip_nl (pad E i))) \<and>
          (passed \<longleftrightarrow> (\<forall>i<max (length A) (length E). spec_line_ok (pad A i) (strip_nl (pad E i))))"
    if "compare_lines True (zip_longest A E) = Inr (out, passed)" for A E
    using compare_lines_spec [OF that]
    by (simp add: zip_longest_length zip_longest_nth)
  have a: "process_command [''foobar''] [''^foo.* re''] False = Inr ([''^foo.* re\<newline>''], True)"
    by code_simp
  have b: "process_command [''baz''] [''bar re''] False = Inr ([''baz\<newline>''], False)"
    by code_simp
  show ?thesis
    using gen a b unfolding process_command_def Let_def by blast
qed

theorem regex_suffix_convention_witness:
  "process_command [''x'', ''foobar''] [''x\<newline>'', ''^foo.* re\<newline>''] True
     = Inr ([''^foo.* re\<newline>'', ''x\<newline>''], True) \<and>
   spec_line_out (pad (sort [''x'', ''foobar'']) 0)
     (strip_nl (pad (sort [''x\<newline>'', ''^foo.* re\<newline>'']) 0)) = ''^foo.* re\<newline>''"
proof -
  have p: "process_command [''x'', ''foobar''] [''x\<newline>'', ''^foo.* re\<newline>''] True
     = Inr ([''^foo.* re\<newline>'', ''x\<newline>''], True)"
    by code_simp
  from regex_suffix_convention [of "[''x'', ''foobar'']" "[''x\<newline>'', ''^foo.* re\<newline>'']" True
      "[''^foo.* re\<newline>'', ''x\<newline>'']" True] p
  have "\<forall>i<2. [''^foo.* re\<newline>'', ''x\<newline>''] ! i =
          spec_line_out (pad (sort [''x'', ''foobar'']) i)
            (strip_nl (pad (sort [''x\<newline>'', ''^foo.* re\<newline>'']) i))"
    by (simp add: Let_def)
  then have "[''^foo.* re\<newline>'', ''x\<newline>''] ! 0 =
          spec_line_out (pad (sort [''x'', ''foobar'']) 0)
            (strip_nl (pad (sort [''x\<newline>'', ''^foo.* re\<newline>'']) 0))"
    by (rule allE [where x = 0]) simp
  with p show ?thesis by simp
qed

section \<open>Properties of table_from_lines and add_regex\<close>

lemma source_patterns_compile:
  "list_all (\<lambda>p. case re_compile p of Inl e \<Rightarrow> False | Inr r \<Rightarrow> re_of p = r)
     [''(get|mark) (ip|delegation)'', ''ndcli create rr .* from'', ''.*'', bs # ''d*'',
      [bs, CHR ''d''], ''.*_[zk]sk_.*'', bs # ''d+ 8 2 .*'', ''set_attr serial='' @ bs # ''d+'',
      ''list zone .* keys'', ''list zone .* dnskeys'', ''list zone .* ds'',
      created_key_pattern, creating_ds_pattern, deleting_ds_pattern]"
  by code_simp

lemma re_of_any: "re_of ''.*'' = Star Dot"
  by code_simp

lemma re_match_any: "re_match (Star Dot) v"
  by (cases v) (simp_all add: re_match_def)

text \<open>
  Claim C5. For a command that selects the fixed-width shape, the header line
  \<open>"NAME  TYPE  TTL"\<close> gives the offsets 0, 6 and 12, each found by a substring search that
  starts one past the previous offset, and the line \<open>"host1  A     3600"\<close> gives the row
  \<open>["host1", "A", "3600"]\<close>, whose cells carry no leading or trailing whitespace.
\<close>

theorem fixed_width_round_trip:
  assumes "\<not> generates_map cmd" and "\<not> contains cmd '' -H''" and "\<not> contains cmd ''dump zone''"
  shows "table_from_lines [''NAME  TYPE  TTL'', ''host1  A     3600''] cmd
           = [[''NAME'', ''TYPE'', ''TTL''], [''host1'', ''A'', ''3600'']] \<and>
         split_ws ''NAME  TYPE  TTL'' = [''NAME'', ''TYPE'', ''TTL''] \<and>
         header_offsets ''NAME  TYPE  TTL'' [] [''NAME'', ''TYPE'', ''TTL''] = [0, 6, 12] \<and>
         py_find ''NAME  TYPE  TTL'' ''NAME'' 0 = 0 \<and>
         py_find ''NAME  TYPE  TTL'' ''TYPE'' (0 + 1) = 6 \<and>
         py_find ''NAME  TYPE  TTL'' ''TTL'' (6 + 1) = 12 \<and>
         map strip [''host1'', ''A'', ''3600''] = [''host1'', ''A'', ''3600'']"
proof -
  have i: "\<not> is_ignorable ''NAME  TYPE  TTL''" "\<not> is_ignorable ''host1  A     3600''"
    by code_simp+
  have w: "split_ws ''NAME  TYPE  TTL'' = [''NAME'', ''TYPE'', ''TTL'']" by code_simp
  have f: "py_find ''NAME  TYPE  TTL'' ''NAME'' 0 = 0"
    "py_find ''NAME  TYPE  TTL'' ''TYPE'' (0 + 1) = 6"
    "py_find ''NAME  TYPE  TTL'' ''TTL'' (6 + 1) = 12" by code_simp+
  have h: "header_offsets ''NAME  TYPE  TTL'' [] [''NAME'', ''TYPE'', ''TTL''] = [0, 6, 12]"
    using f by simp
  have s1: "slice_row ''NAME  TYPE  TTL'' [0, 6, 12] = [''NAME'', ''TYPE'', ''TTL'']"
    by code_simp
  have s2: "slice_row ''host1  A     3600'' [0, 6, 12] = [''host1'', ''A'', ''3600'']"
    by code_simp
  have st: "map strip [''host1'', ''A'', ''3600''] = [''host1'', ''A'', ''3600'']"
    by code_simp
  have "table_from_lines [''NAME  TYPE  TTL'', ''host1  A     3600''] cmd
           = [[''NAME'', ''TYPE'', ''TTL''], [''host1'', ''A'', ''3600'']]"
    unfolding table_from_lines_def using assms i w h s1 s2 by simp
  with w h f st show ?thesis by simp
qed

theorem fixed_width_round_trip_witness:
  "\<not> generates_map ''$ ndcli list pools\<newline>'' \<and>
   \<not> contains ''$ ndcli list pools\<newline>'' '' -H'' \<and>
   \<not> contains ''$ ndcli list pools\<newline>'' ''dump zone'' \<and>
   table_from_lines [''NAME  TYPE  TTL'', ''host1  A     3600''] ''$ ndcli list pools\<newline>''
     = [[''NAME'', ''TYPE'', ''TTL''], [''host1'', ''A'', ''3600'']]"
proof -
  have a: "\<not> generates_map ''$ ndcli list pools\<newline>''" by code_simp
  have b: "\<not> contains ''$ ndcli list pools\<newline>'' '' -H''" by code_simp
  have c: "\<not> contains ''$ ndcli list pools\<newline>'' ''dump zone''" by code_simp
  from fixed_width_round_trip [OF a b c] a b c show ?thesis by simp
qed

text \<open>
  Claim C6, as stated, fails: the line is split at the first colon and nothing is stripped,
  so the value cell keeps the space that follows the colon.
\<close>

theorem map_shape_parsing_counterexample:
  "table_from_lines [''created: 2020-01-01''] ''$ ndcli show pool p\<newline>''
     = [[''created'', '' 2020-01-01'']] \<and>
   table_from_lines [''created: 2020-01-01''] ''$ ndcli show pool p\<newline>''
     \<noteq> [[''created'', ''2020-01-01'']]"
  by code_simp

text \<open>
  Claim C6, amended. For a command that prints a map, the line \<open>"created: 2020-01-01"\<close> is
  parsed into the cells \<open>"created"\<close> and \<open>" 2020-01-01"\<close>; \<open>add_regex\<close> replaces the second
  cell by the compiled pattern \<open>.*\<close>, and every actual value matches it.
\<close>

theorem map_shape_parsing:
  assumes "generates_map cmd"
  shows "table_from_lines [''created: 2020-01-01''] cmd = [[''created'', '' 2020-01-01'']] \<and>
         add_regex (table_from_lines [''created: 2020-01-01''] cmd) cmd
           = Inr [[Lit ''created'', Pat (Star Dot)]] \<and>
         (\<forall>v. match [''created'', v] [Lit ''created'', Pat (Star Dot)])"
proof -
  have i: "\<not> is_ignorable ''created: 2020-01-01''" by code_simp
  have sp: "split_once CHR '':'' ''created: 2020-01-01'' = [''created'', '' 2020-01-01'']"
    by code_simp
  have t: "table_from_lines [''created: 2020-01-01''] cmd = [[''created'', '' 2020-01-01'']]"
    unfolding table_from_lines_def using assms i sp by simp
  have "add_regex [[''created'', '' 2020-01-01'']] cmd = Inr [[Lit ''created'', Pat (Star Dot)]]"
    unfolding add_regex_def using assms
    by (simp add: map_row_def bind_def get_cell_def set_cell_def pat_any_def re_of_any)
  moreover have "match [''created'', v] [Lit ''created'', Pat (Star Dot)]" for v
    by (simp add: match_def re_match_any)
  ultimately show ?thesis using t by simp
qed

theorem map_shape_parsing_witness:
  "generates_map ''$ ndcli show pool p\<newline>'' \<and>
   add_regex (table_from_lines [''created: 2020-01-01''] ''$ ndcli show pool p\<newline>'')
       ''$ ndcli show pool p\<newline>''
     = Inr [[Lit ''created'', Pat (Star Dot)]] \<and>
   match [''created'', '' 2021-12-31''] [Lit ''created'', Pat (Star Dot)]"
proof -
  have a: "generates_map ''$ ndcli show pool p\<newline>''" by code_simp
  from map_shape_parsing [OF a] a show ?thesis by blast
qed

section \<open>Properties of run_test\<close>

subsection \<open>Collecting the expected block\<close>

lemma push_back_spec:
  "push_back er lines = (er', lines') \<Longrightarrow>
     \<exists>trailing. er = er' @ trailing \<and> (\<forall>t\<in>set trailing. is_ignorable t) \<and>
       (er' = [] \<or> \<not> is_ignorable (last er')) \<and>
       lines' = concat (map (map (\<lambda>c. [c])) trailing) @ lines"
proof (induction er lines arbitrary: er' lines' rule: push_back.induct)
  case (1 er lines)
  show ?case
  proof (cases "er \<noteq> [] \<and> is_ignorable (last er)")
    case True
    with "1.prems" have
      "push_back (butlast er) (map (\<lambda>c. [c]) (last er) @ lines) = (er', lines')"
      by (subst (asm) push_back.simps) simp
    from "1.IH" [OF True this] obtain trailing where
      t: "butlast er = er' @ trailing" "\<forall>t\<in>set trailing. is_ignorable t"
      "er' = [] \<or> \<not> is_ignorable (last er')"
      "lines' = concat (map (map (\<lambda>c. [c])) trailing) @ map (\<lambda>c. [c]) (last er) @ lines"
      by blast
    from True t(1) have "er = er' @ (trailing @ [last er])"
      by (metis append_assoc append_butlast_last_id)
    with t True show ?thesis
      by (intro exI [of _ "trailing @ [last er]"]) simp
  next
    case False
    with "1.prems" have "er' = er" "lines' = lines"
      by (subst (asm) push_back.simps; auto)+
    with False show ?thesis by (intro exI [of _ "[]"]) auto
  qed
qed

lemma collect_block_spec:
  assumes "collect_block lines = (expected_result, lines')"
  shows "\<exists>trailing.
       takeWhile (\<lambda>l. \<not> startswith l ''$ '') lines = expected_result @ trailing \<and>
       (\<forall>t\<in>set trailing. is_ignorable t) \<and>
       (expected_result = [] \<or> \<not> is_ignorable (last expected_result)) \<and>
       lines' = concat (map (map (\<lambda>c. [c])) trailing) @
                dropWhile (\<lambda>l. \<not> startswith l ''$ '') lines"
  using push_back_spec [OF assms [unfolded collect_block_def]] .

lemma concat_explode: "concat (map (\<lambda>c. [c]) s) = s"
  by (induction s) simp_all

lemma concat_explode_lines: "concat (concat (map (map (\<lambda>c. [c])) ls)) = concat ls"
  by (induction ls) (simp_all add: concat_explode)

lemma collect_block_text:
  assumes "collect_block lines = (expected_result, lines')"
  shows "concat expected_result @ concat lines' = concat lines"
proof -
  from collect_block_spec [OF assms] obtain trailing where
    tw: "takeWhile (\<lambda>l. \<not> startswith l ''$ '') lines = expected_result @ trailing"
    and l': "lines' = concat (map (map (\<lambda>c. [c])) trailing) @
               dropWhile (\<lambda>l. \<not> startswith l ''$ '') lines"
    by blast
  have "concat lines = concat (expected_result @ trailing) @
      concat (dropWhile (\<lambda>l. \<not> startswith l ''$ '') lines)"
    by (metis tw concat_append takeWhile_dropWhile_id)
  then show ?thesis unfolding l' by (simp add: concat_explode_lines)
qed

text \<open>
  Claim C8. The trailing ignorable lines of a block are taken out of the block and put back
  in front of the remaining lines, in their order (\<open>collect_block_spec\<close>), and their text
  comes back unchanged (\<open>collect_block_text\<close>). But a line is not put back as one line:
  the slice assignment receives a \<open>str\<close> and inserts its characters one by one. The comment
  line \<open># c\<close> comes back as four entries of the cursor.
\<close>

theorem collect_block_splits_pushed_back_line:
  "collect_block [''a\<newline>'', ''# c\<newline>'', ''$ echo b\<newline>'', ''b\<newline>'']
     = ([''a\<newline>''], [''#'', '' '', ''c'', ''\<newline>'', ''$ echo b\<newline>'', ''b\<newline>''])"
  by code_simp

subsection \<open>A run in which every directive agrees\<close>

lemma concat_splitlines_aux: "concat (splitlines_aux True cur s) = cur @ s"
  by (induction True cur s rule: splitlines_aux.induct) simp_all

lemma concat_splitlines: "concat (splitlines True s) = s"
  by (simp add: splitlines_def concat_splitlines_aux)

lemma strip_nl_body: "nl \<notin> set b \<Longrightarrow> strip_nl (b @ [nl]) = b"
proof (cases b)
  case Nil
  then show ?thesis by (simp add: strip_nl_def strip_by_def)
next
  case (Cons c cs)
  assume n: "nl \<notin> set b"
  with Cons have c: "c \<noteq> nl" by auto
  from n Cons have lb: "last b \<noteq> nl" by (metis last_in_set list.distinct(1))
  from Cons obtain x xs where r: "rev b = x # xs" by (cases "rev b") auto
  then have "x = last b" using Cons by (metis hd_rev list.sel(1) list.distinct(1))
  with lb have "dropWhile (\<lambda>c. c = nl) (x # xs) = x # xs" by simp
  then have "dropWhile (\<lambda>c. c = nl) (rev b) = rev b" unfolding r .
  with c Cons show ?thesis by (simp add: strip_nl_def strip_by_def)
qed

lemma proper_body: "proper l \<Longrightarrow> l = strip_nl l @ [nl] \<and> nl \<notin> set (strip_nl l)"
proof -
  assume p: "proper l"
  then have l: "l = butlast l @ [nl]" and n: "nl \<notin> set (butlast l)"
    by (auto simp: proper_def) (metis append_butlast_last_id)
  from strip_nl_body [OF n] l have "strip_nl l = butlast l" by metis
  with l n show ?thesis by simp
qed

lemma split_on_aux_body:
  "nl \<notin> set b \<Longrightarrow> split_on_aux nl cur (b @ nl # rest) = (cur @ b) # split_on_aux nl [] rest"
  by (induction b arbitrary: cur) auto

lemma split_on_concat_proper:
  "\<forall>l\<in>set ls. proper l \<Longrightarrow> split_on_aux nl [] (concat ls) = map strip_nl ls @ [[]]"
proof (induction ls)
  case Nil
  then show ?case by simp
next
  case (Cons l ls)
  from Cons.prems have "proper l" by simp
  from proper_body [OF this] have l: "l = strip_nl l @ [nl]" and n: "nl \<notin> set (strip_nl l)"
    by simp_all
  have c: "concat (l # ls) = strip_nl l @ nl # concat ls"
    using l by (metis append.assoc append_Cons append_Nil concat.simps(2))
  have "split_on_aux nl [] (concat (l # ls)) = ([] @ strip_nl l) # split_on_aux nl [] (concat ls)"
    unfolding c by (rule split_on_aux_body [OF n])
  then show ?case using Cons.IH Cons.prems by simp
qed

lemma is_ignorable_Nil: "is_ignorable []"
  by (simp add: is_ignorable_def strip_def strip_by_def)

lemma table_from_lines_snoc: "table_from_lines (ls @ [[]]) cmd = table_from_lines ls cmd"
proof -
  have f: "filter (\<lambda>line. \<not> is_ignorable line) (ls @ [[]]) = filter (\<lambda>line. \<not> is_ignorable line) ls"
    by (simp add: is_ignorable_Nil)
  show ?thesis
  proof (cases "\<forall>l\<in>set ls. is_ignorable l")
    case True
    then have e: "dropWhile is_ignorable (ls @ [[]]) = []" "dropWhile is_ignorable ls = []"
      by (simp_all add: is_ignorable_Nil)
    show ?thesis unfolding table_from_lines_def f e by simp
  next
    case False
    then obtain x where "x \<in> set ls" "\<not> is_ignorable x" by blast
    then have d: "dropWhile is_ignorable (ls @ [[]]) = dropWhile is_ignorable ls @ [[]]"
      by (rule dropWhile_append1)
    from False obtain line0 rest where dl: "dropWhile is_ignorable ls = line0 # rest"
      by (cases "dropWhile is_ignorable ls") auto
    show ?thesis
      unfolding table_from_lines_def f d dl
      by (simp add: is_ignorable_Nil)
  qed
qed

lemma tables_equal:
  assumes "splitlines True result = expected" and "\<forall>l\<in>set expected. proper l"
  shows "actual_table_of line result = expected_table_of line expected"
proof -
  have r: "result = concat expected"
    using assms(1) concat_splitlines [of result] by simp
  have "split_on nl result = map strip_nl expected @ [[]]"
    unfolding r split_on_def by (rule split_on_concat_proper [OF assms(2)])
  then show ?thesis
    using assms(1) by (simp add: actual_table_of_def expected_table_of_def table_from_lines_snoc)
qed

lemma find_expected_skip:
  "\<forall>j. j0 \<le> j \<and> j < j0 + k \<longrightarrow> j \<in> set (map snd m) \<Longrightarrow> k < length es \<Longrightarrow>
   j0 + k \<notin> set (map snd m) \<Longrightarrow> match row (es ! k) \<Longrightarrow>
   find_expected m row j0 es = Some (j0 + k)"
proof (induction es arbitrary: j0 k)
  case Nil
  then show ?case by simp
next
  case (Cons e es)
  show ?case
  proof (cases k)
    case 0
    with Cons.prems show ?thesis by simp
  next
    case (Suc k')
    have "\<forall>j. Suc j0 \<le> j \<and> j < Suc j0 + k' \<longrightarrow> j \<in> set (map snd m)"
      using Cons.prems(1) Suc by auto
    from Cons.IH [OF this, of ] Cons.prems Suc
    have "find_expected m row (Suc j0) es = Some (Suc j0 + k')" by simp
    moreover have "j0 \<in> set (map snd m)" using Cons.prems(1) Suc by auto
    ultimately show ?thesis using Suc by simp
  qed
qed

lemma match_rows_identity:
  assumes "length t = length et" and "\<forall>i<length t. match (t ! i) (et ! i)"
  shows "no \<le> length t \<Longrightarrow> match_rows (idpairs no) no (drop no t) et = idpairs (length t)"
proof (induction "length t - no" arbitrary: no)
  case 0
  then show ?case by simp
next
  case (Suc d)
  then have lt: "no < length t" by simp
  have dr: "drop no t = t ! no # drop (Suc no) t"
    using lt by (simp add: Cons_nth_drop_Suc)
  have used: "set (map snd (idpairs no)) = {0..<no}"
    by (auto simp: idpairs_def)
  have "find_expected (idpairs no) (t ! no) 0 et = Some (0 + no)"
    by (rule find_expected_skip) (use used lt assms in auto)
  moreover have "idpairs no @ [(no, no)] = idpairs (Suc no)"
    by (simp add: idpairs_def)
  moreover have "match_rows (idpairs (Suc no)) (Suc no) (drop (Suc no) t) et = idpairs (length t)"
    by (rule Suc.hyps(1)) (use Suc.hyps(2) lt in simp_all)
  ultimately show ?case unfolding dr by simp
qed

lemma match_table_identity:
  assumes m: "list_all2 match t et" and len: "length t \<le> length raw"
  shows "match_table t et raw raw = Inr raw"
proof -
  from m have l: "length t = length et" and a: "\<forall>i<length t. match (t ! i) (et ! i)"
    by (simp_all add: list_all2_conv_all_nth)
  have M: "match_rows [] 0 t et = idpairs (length t)"
    using match_rows_identity [OF l a, of 0] by (simp add: idpairs_def)
  have fs: "map fst (idpairs n) = [0..<n]" "map snd (idpairs n) = [0..<n]" for n
    by (simp_all add: idpairs_def comp_def map_idI)
  have srt: "sort [0..<n] = [0..<n]" for n :: nat
    by (simp add: sorted_sort_id)
  from match_table_out [of et raw t raw] l len obtain out where
    out: "match_table t et raw raw = Inr out" "length out = length raw"
    "\<forall>i<length raw. out ! i =
        (if i \<in> set (map fst (match_rows [] 0 t et))
         then raw ! (sort (map snd (match_rows [] 0 t et)) !
                length (filter (\<lambda>k. k \<in> set (map fst (match_rows [] 0 t et))) [0..<i]))
         else raw ! i)" by auto
  have "out ! i = raw ! i" if i: "i < length raw" for i
  proof (cases "i < length t")
    case True
    then have "filter (\<lambda>k. k < length t) [0..<i] = [0..<i]"
      by (simp add: filter_id_conv)
    with out(3) i True show ?thesis by (simp add: M fs srt)
  next
    case False
    with out(3) i show ?thesis by (simp add: M fs)
  qed
  with out(2) have "out = raw" by (simp add: nth_equalityI)
  with out(1) show ?thesis by simp
qed

lemma cli_identity:
  assumes "splitlines True result = expected" and "\<forall>l\<in>set expected. proper l"
    and "self_accepted line expected"
  shows "\<exists>et. add_regex (expected_table_of line expected) line = Inr et \<and>
     match_table (actual_table_of line result) et (splitlines True result) expected = Inr expected"
proof -
  from assms(3) obtain et where
    et: "add_regex (expected_table_of line expected) line = Inr et"
    "list_all2 match (expected_table_of line expected) et"
    by (auto simp: self_accepted_def split: sum.splits)
  have "match_table (expected_table_of line expected) et expected expected = Inr expected"
    by (rule match_table_identity [OF et(2) length_expected_table_of])
  with tables_equal [OF assms(1,2)] assms(1) et(1) show ?thesis by simp
qed

lemma spec_line_out_same: "spec_line_out a a = a @ [nl]"
  by (simp add: spec_line_out_def)

lemma shell_identity:
  assumes pc: "process_command result expected sb = Inr (written, passed)"
    and res: "result = map strip_nl expected"
    and prp: "\<forall>l\<in>set expected. proper l"
    and srt: "sb \<longrightarrow> sort result = result \<and> sort expected = expected"
  shows "written = expected \<and>
         (list_all (\<lambda>e. spec_line_ok (strip_nl e) (strip_nl e)) expected \<longrightarrow> passed)"
proof -
  let ?n = "length expected"
  from pc srt have cl: "compare_lines True (zip_longest result expected) = Inr (written, passed)"
    by (auto simp: process_command_def Let_def split: if_splits)
  have len: "length (zip_longest result expected) = ?n"
    by (simp add: zip_longest_length res)
  have z: "zip_longest result expected ! i = (strip_nl (expected ! i), expected ! i)"
    if "i < ?n" for i
    using zip_longest_nth [of i result expected] that by (simp add: res pad_def)
  from compare_lines_spec [OF cl] len z have
    w: "length written = ?n"
    "\<forall>i<?n. written ! i = spec_line_out (strip_nl (expected ! i)) (strip_nl (expected ! i))"
    "passed \<longleftrightarrow> (\<forall>i<?n. spec_line_ok (strip_nl (expected ! i)) (strip_nl (expected ! i)))"
    by simp_all
  have "written ! i = expected ! i" if "i < ?n" for i
  proof -
    from prp that have "proper (expected ! i)" by simp
    from proper_body [OF this] w(2) that show ?thesis
      by (simp add: spec_line_out_same)
  qed
  with w(1) have "written = expected" by (simp add: nth_equalityI)
  moreover have "passed" if "list_all (\<lambda>e. spec_line_ok (strip_nl e) (strip_nl e)) expected"
    using that w(3) by (simp add: list_all_length)
  ultimately show ?thesis by simp
qed

lemma process_command_bytes_returns:
  assumes "process_command_bytes result expected sb = Inr r"
  shows "result = [] \<and> process_command result expected sb = Inr r"
proof -
  have "sort result = [] \<longleftrightarrow> result = []"
    by (metis length_sort length_0_conv)
  with assms have "result = []"
    by (auto simp: process_command_bytes_def Let_def split: if_splits list.splits sum.splits)
  with assms show ?thesis
    by (cases sb) (simp_all add: process_command_bytes_def process_command_def Let_def)
qed

lemma check_pdns_output_good:
  "check_pdns_output T needed line w = (Inr (msg, True), w2) \<Longrightarrow> msg = []"
  by (auto simp: check_pdns_output_def split: if_splits prod.splits sum.splits)

lemma run_directive_identity:
  assumes rd: "run_directive T needed auto line ci er w = Inr (written, ok, entry, w')"
    and ag: "agrees entry" and prp: "\<forall>l\<in>set er. proper l"
  shows "written = er \<and> (self_matching entry \<longrightarrow> ok)"
proof (cases "startswith line ''$ ndcli''")
  case True
  from rd True obtain result w1 where
    rc: "run_command T line ci w = (Inr result, w1)"
    by (auto simp: run_directive_def split: prod.splits sum.splits)
  from rd True rc obtain good where entry: "entry = Cli line er result good"
    by (auto simp: run_directive_def bind_def split: prod.splits sum.splits if_splits)
  from ag entry have a: "splitlines True result = er" "self_accepted line er" "good"
    by simp_all
  from cli_identity [OF a(1) prp a(2)] obtain et where
    et: "add_regex (expected_table_of line er) line = Inr et"
    "match_table (actual_table_of line result) et (splitlines True result) er = Inr er"
    by blast
  show ?thesis
  proof (cases auto)
    case False
    with rd True rc et show ?thesis
      by (simp add: run_directive_def bind_def)
  next
    case auto: True
    from rd True rc et auto obtain msg g w2 where
      cp: "check_pdns_output T needed line w1 = (Inr (msg, g), w2)"
      by (auto simp: run_directive_def bind_def split: prod.splits sum.splits)
    with rd True rc et auto entry have "g = good" "written = er @ msg" "ok = g"
      by (auto simp: run_directive_def bind_def)
    with a(3) cp check_pdns_output_good [of T needed line w1 msg w2] show ?thesis by simp
  qed
next
  case False
  define l where "l = strip_nl line"
  from rd False have
    wu: "(if is_pdns_query l then wait_updates needed else Inr ()) = Inr ()"
    by (auto simp: run_directive_def Let_def l_def split: prod.splits sum.splits)
  from rd False wu obtain result w1 where
    rs: "run_system_command T (drop 2 l) w = (Inr result, w1)"
    by (auto simp: run_directive_def Let_def l_def split: prod.splits sum.splits)
  from rd False wu rs obtain passed where
    pb: "process_command_bytes result er (is_pdns_query l) = Inr (written, passed)"
    and entry: "entry = Shell l er result" and ok: "ok = passed"
    by (auto simp: run_directive_def Let_def l_def bind_def split: prod.splits sum.splits)
  from process_command_bytes_returns [OF pb] have
    pc: "process_command result er (is_pdns_query l) = Inr (written, passed)" by blast
  from ag entry have a: "result = map strip_nl er"
    "is_pdns_query l \<longrightarrow> sort result = result \<and> sort er = er" by auto
  from shell_identity [OF pc a(1) prp a(2)] entry ok show ?thesis by simp
qed

lemma get_cat_input_concat:
  "get_cat_input lines word = (ci, wr, rest) \<Longrightarrow> wr @ rest = lines"
proof (induction lines arbitrary: ci wr rest)
  case Nil
  then show ?case by simp
next
  case (Cons l ls)
  show ?case
  proof (cases "l = word @ [nl]")
    case True
    with Cons.prems show ?thesis by auto
  next
    case False
    obtain ci' wr' rest' where g: "get_cat_input ls word = (ci', wr', rest')"
      by (cases "get_cat_input ls word")
    with Cons.prems False have "wr = l # wr'" "rest = rest'" by simp_all
    with Cons.IH [OF g] show ?thesis by simp
  qed
qed

lemma read_heredoc_concat:
  "read_heredoc line0 lines0 = Inr (line, ci, cw, lines1) \<Longrightarrow> cw @ lines1 = lines0"
  by (auto simp: read_heredoc_def bind_def split: if_splits sum.splits prod.splits
      dest: get_cat_input_concat)

lemma startswith_length: "startswith s p \<Longrightarrow> length p \<le> length s"
proof -
  assume "startswith s p"
  then have "length (take (length p) s) = length p" by (simp add: startswith_def)
  then show ?thesis by simp
qed

lemma read_heredoc_single:
  "length line0 = 1 \<Longrightarrow> read_heredoc line0 lines0 = Inr (line0, None, [], lines0)"
proof -
  assume l: "length line0 = 1"
  have "\<not> startswith line0 ''$ cat <<EOF | ndcli''"
    using startswith_length [of line0 "''$ cat <<EOF | ndcli''"] l by auto
  then show ?thesis by (simp add: read_heredoc_def)
qed

lemma read_heredoc_directive:
  assumes "read_heredoc line0 lines0 = Inr (line, ci, cw, lines1)" and "startswith line ''$ ''"
  shows "2 \<le> length line0"
proof (cases "startswith line0 ''$ cat <<EOF | ndcli''")
  case True
  from startswith_length [OF this] show ?thesis by simp
next
  case False
  with assms(1) have "line = line0" by (simp add: read_heredoc_def)
  with startswith_length [OF assms(2)] show ?thesis by simp
qed

lemma run_lines_identity:
  "run_lines T needed stop auto lines w = Inr (out, log, completed) \<Longrightarrow>
   lines = pre @ orig \<Longrightarrow> \<forall>p\<in>set pre. length p = 1 \<Longrightarrow> \<forall>l\<in>set orig. proper l \<Longrightarrow>
   \<forall>d\<in>set log. agrees d \<Longrightarrow> (stop \<longrightarrow> (\<forall>d\<in>set log. self_matching d)) \<Longrightarrow>
   completed \<and> concat out = concat lines"
proof (induction T needed stop auto lines w arbitrary: out log completed pre orig
    rule: run_lines.induct)
  case (1 T needed stop auto w)
  then show ?case by simp
next
  case (2 T needed stop auto line0 lines0 w)
  note run = "2.prems"(1) and dec = "2.prems"(2) and single = "2.prems"(3)
    and prp = "2.prems"(4) and ag = "2.prems"(5) and sm = "2.prems"(6)
  from run obtain line ci cw lines1 where
    rh: "read_heredoc line0 lines0 = Inr (line, ci, cw, lines1)"
    by (cases "read_heredoc line0 lines0") auto
  have cat: "cw @ lines1 = lines0" by (rule read_heredoc_concat [OF rh])
  show ?case
  proof (cases "startswith line ''$ ''")
    case False
    from run rh False obtain out' where
      rec: "run_lines T needed stop auto lines1 w = Inr (out', log, completed)"
      and out: "out = line0 # cw @ out'"
      by (auto split: sum.splits)
    have "\<exists>pre' orig'. lines1 = pre' @ orig' \<and> (\<forall>p\<in>set pre'. length p = 1) \<and>
        (\<forall>l\<in>set orig'. proper l)"
    proof (cases pre)
      case Nil
      with dec prp cat have "\<forall>l\<in>set lines1. proper l" by auto
      then show ?thesis by (intro exI [of _ "[]"] exI [of _ lines1]) simp
    next
      case (Cons p pre'')
      with dec single have l0: "length line0 = 1" and l: "lines0 = pre'' @ orig" by auto
      from read_heredoc_single [OF l0, of lines0] rh have "lines1 = lines0" by simp
      with l single Cons prp show ?thesis
        by (intro exI [of _ pre''] exI [of _ orig]) simp
    qed
    then obtain pre' orig' where d': "lines1 = pre' @ orig'" "\<forall>p\<in>set pre'. length p = 1"
      "\<forall>l\<in>set orig'. proper l" by blast
    from "2.IH"(2) [OF rh refl refl refl False rec d' ag sm]
    have "completed" "concat out' = concat lines1" by simp_all
    with out cat show ?thesis by (metis concat.simps(2) concat_append)
  next
    case True
    from read_heredoc_directive [OF rh True] have "pre = []"
    proof (cases pre)
      case (Cons p pre'')
      with dec single have "length line0 = 1" by auto
      with \<open>2 \<le> length line0\<close> show ?thesis by simp
    qed simp
    with dec prp cat have p1: "\<forall>l\<in>set lines1. proper l" by auto
    obtain er lines2 where cb: "collect_block lines1 = (er, lines2)"
      by (cases "collect_block lines1")
    from collect_block_spec [OF cb] obtain trailing where
      tw: "takeWhile (\<lambda>l. \<not> startswith l ''$ '') lines1 = er @ trailing"
      and l2: "lines2 = concat (map (map (\<lambda>c. [c])) trailing) @
                dropWhile (\<lambda>l. \<not> startswith l ''$ '') lines1"
      by blast
    have "set er \<subseteq> set lines1"
      using tw set_takeWhileD [of _ "\<lambda>l. \<not> startswith l ''$ ''" lines1] by auto
    with p1 have per: "\<forall>l\<in>set er. proper l" by auto
    from run rh True cb obtain written ok entry w' where
      rd: "run_directive T needed auto line ci er w = Inr (written, ok, entry, w')"
      by (auto split: sum.splits prod.splits)
    have inlog: "entry \<in> set log"
      using run rh True cb rd by (auto split: sum.splits prod.splits if_splits)
    with ag have age: "agrees entry" by simp
    from run_directive_identity [OF rd age per] have wr: "written = er"
      and okk: "self_matching entry \<longrightarrow> ok" by simp_all
    have ns: "\<not> (stop \<and> \<not> ok)" using okk sm inlog by auto
    with run rh True cb rd obtain out' log' where
      rec: "run_lines T needed stop auto lines2 w' = Inr (out', log', completed)"
      and out: "out = line0 # cw @ written @ out'" and log: "log = entry # log'"
      by (auto split: sum.splits prod.splits)
    have s1: "\<forall>p\<in>set (concat (map (map (\<lambda>c. [c])) trailing)). length p = 1" by auto
    have s2: "\<forall>l\<in>set (dropWhile (\<lambda>l. \<not> startswith l ''$ '') lines1). proper l"
      using p1 set_dropWhileD by fastforce
    have ag': "\<forall>d\<in>set log'. agrees d" using ag log by simp
    have sm': "stop \<longrightarrow> (\<forall>d\<in>set log'. self_matching d)" using sm log by simp
    from "2.IH"(1) [OF rh refl refl refl True cb [symmetric] rd refl refl refl ns rec l2 s1 s2 ag' sm']
    have c: "completed" and co: "concat out' = concat lines2" by simp_all
    have "concat lines2 = concat trailing @ concat (dropWhile (\<lambda>l. \<not> startswith l ''$ '') lines1)"
      unfolding l2 by (simp add: concat_explode_lines)
    moreover have "concat lines1 = concat er @ concat trailing @
        concat (dropWhile (\<lambda>l. \<not> startswith l ''$ '') lines1)"
      by (metis tw concat_append takeWhile_dropWhile_id append.assoc)
    moreover have "concat lines0 = concat cw @ concat lines1"
      using cat by (metis concat_append)
    ultimately have "concat out = concat (line0 # lines0)"
      using out wr co by simp
    with c show ?thesis by simp
  qed
qed

subsection \<open>Runs outside the idempotence property\<close>

text \<open>
  Runs that raise although the actual output equals the expected block. A shell command that
  prints a line: the line reaches \<open>process_command\<close> as a \<open>bytes\<close> object. A resolver
  query: \<open>wait_updates\<close> raises before the command is run. A zone command under the export
  check: \<open>check_pdns_output\<close> calls \<open>wait_updates\<close>. A map line without a colon:
  \<open>add_regex\<close> writes to a second cell that is not there.
\<close>

lemma shell_output_raises:
  "run_test (shell_tools [''a'']) [''$ echo a\<newline>'', ''a\<newline>''] False False () = Inl TypeError"
  by code_simp

lemma resolver_query_raises:
  "run_test (shell_tools []) [''$ dig x\<newline>''] False False () = Inl TypeError"
  by code_simp

lemma export_check_raises:
  "run_test (cli_tools []) [''$ ndcli create zone a.de\<newline>''] False True () = Inl TypeError"
  by code_simp

lemma annotation_raises:
  "run_test (cli_tools ''created\<newline>'')
       [''$ ndcli show pool p\<newline>'', ''created\<newline>''] False False ()
     = Inl IndexError"
  by code_simp

text \<open>
  A run that passes although the outputs differ. The command prints a blank line and one
  row where two equal rows are expected. The extractor drops the blank line, so the row has
  index 0 in the table but stands at line 1; \<open>match_table\<close> writes the expected text at
  line 0 and the actual text of line 1 after it.
\<close>

lemma misaligned_rows_false_pass:
  "run_test (cli_tools ''\<newline>a: 1\<newline>'')
       [''$ ndcli show x\<newline>'', ''a: 1\<newline>'', ''a: 1\<newline>''] False False ()
     = Inr ([''$ ndcli show x\<newline>'', ''a: 1\<newline>'', ''a: 1\<newline>''],
            [Cli ''$ ndcli show x\<newline>'' [''a: 1\<newline>'', ''a: 1\<newline>'']
               ''\<newline>a: 1\<newline>'' True],
            True)"
  by code_simp

text \<open>
  Claim C1, as stated, fails. In a record listing \<open>add_regex\<close> replaces the value of every
  \<open>DS\<close> record of the expected table by the pattern \<open>\d+ 8 2 .*\<close>. Here the command
  prints the two lines of \<open>ds_lines\<close>, exactly the expected block. The first row (algorithm
  5, digest type 1) matches no annotated row, its own included; the second row matches the
  annotated first row, the first one that is free. So the second line of the output is the
  expected text of the first row: the output file differs from the transcript and
  \<open>run_test\<close> returns \<open>False\<close>.
\<close>

theorem idempotence_counterexample:
  "run_test (cli_tools (concat ds_lines))
       (''$ ndcli list zone a.de -H\<newline>'' # ds_lines) False False ()
     = Inr ([''$ ndcli list zone a.de -H\<newline>'', ds_lines ! 0, ds_lines ! 0],
            [Cli ''$ ndcli list zone a.de -H\<newline>'' ds_lines (concat ds_lines) True],
            False) \<and>
   splitlines True (concat ds_lines) = ds_lines \<and>
   ds_lines ! 0 \<noteq> ds_lines ! 1"
  by code_simp

text \<open>
  Claim C1, amended. Let every line of the transcript be proper and let the run return
  (nothing raises). If every directive that was executed agrees (its actual output equals its
  expected block line for line; the expected rows of a command line directive are accepted by
  their own annotation and its side-channel check did not fail; the lines of a sorted
  comparison are already sorted) and, in fail-fast mode, every pattern line of a shell
  directive matches its own text, then the output file equals the transcript byte for byte
  and \<open>run_test\<close> returns \<open>True\<close>.
\<close>

theorem idempotence_on_success:
  assumes "\<forall>l\<in>set lines. proper l"
    and "run_test T lines stop_on_error auto_pdns_check w = Inr (out, log, result)"
    and "\<forall>d\<in>set log. agrees d"
    and "stop_on_error \<longrightarrow> (\<forall>d\<in>set log. self_matching d)"
  shows "concat out = concat lines \<and> result"
proof -
  define auto' where "auto' = (auto_pdns_check \<and>
             \<not> list_ex (\<lambda>line. contains line ''create zone-group'' \<or>
                               contains line ''create output'') lines)"
  define needed where "needed =
     (list_ex (\<lambda>line. contains line ''drill'' \<or> contains line ''dig'') lines \<or> auto')"
  from assms(2) obtain completed where
    rl: "run_lines T needed stop_on_error auto' lines w = Inr (out, log, completed)"
    and res: "result = (completed \<and> concat out = concat lines)"
    by (auto simp: run_test_def auto'_def needed_def Let_def split: sum.splits)
  from run_lines_identity [OF rl _ _ assms(1) assms(3) assms(4), of "[]"]
  have "completed \<and> concat out = concat lines" by simp
  with res show ?thesis by simp
qed

theorem idempotence_on_success_witness:
  "list_all proper demo_transcript \<and>
   run_test (cli_tools ''created: 2020-01-01\<newline>'') demo_transcript False False ()
     = Inr ([''# t\<newline>'', ''$ touch f\<newline>'', ''#'', '' '', ''c'', ''\<newline>'', ''\<newline>'',
             ''$ ndcli show pool p\<newline>'', ''created: 2020-01-01\<newline>''], demo_trace, True) \<and>
   list_all agrees demo_trace \<and>
   concat [''# t\<newline>'', ''$ touch f\<newline>'', ''#'', '' '', ''c'', ''\<newline>'', ''\<newline>'',
           ''$ ndcli show pool p\<newline>'', ''created: 2020-01-01\<newline>''] = concat demo_transcript"
proof -
  have p: "list_all proper demo_transcript" by code_simp
  have r: "run_test (cli_tools ''created: 2020-01-01\<newline>'') demo_transcript False False ()
     = Inr ([''# t\<newline>'', ''$ touch f\<newline>'', ''#'', '' '', ''c'', ''\<newline>'', ''\<newline>'',
             ''$ ndcli show pool p\<newline>'', ''created: 2020-01-01\<newline>''], demo_trace, True)"
    by code_simp
  have a: "list_all agrees demo_trace" by code_simp
  from p have p': "\<forall>l\<in>set demo_transcript. proper l" by (simp add: list_all_iff)
  from a have a': "\<forall>d\<in>set demo_trace. agrees d" by (simp add: list_all_iff)
  from idempotence_on_success [OF p' r a'] p r a show ?thesis by simp
qed

end
